theory Spec2Isabelle
  imports Complex_Main "HOL-Library.Word"
begin

section \<open>Data model of GraphBase\<close>

text \<open>
  The class template \<open>GraphBase<NodeProperty, EdgeProperty>\<close> of
  \<^verbatim>\<open>graph_base_impl.h\<close> owns
  \<^item> \<open>graph_\<close>, a \<open>std::vector<std::map<size_t, double>>\<close>: one adjacency row per node;
  \<^item> \<open>node_properties_\<close>, a \<open>std::map<size_t, NodeProperty>\<close>;
  \<^item> \<open>edge_properties_\<close>, a \<open>std::map<EdgeId, EdgeProperty>\<close> with
    \<open>EdgeId = std::pair<size_t, size_t>\<close>;
  \<^item> the markers \<open>start_idx_\<close>, \<open>goal_idx_\<close> and the flag \<open>is_created_\<close>.
  The record's fields carry the members' names without the trailing underscore.

  Node indices (\<open>size_t\<close>) are natural numbers; no arithmetic on them can wrap in the code
  (the only subtraction is \<open>graph_.size() - 1\<close> right after a \<open>push_back\<close>), and the one
  place where the width matters is the sentinel \<open>std::numeric_limits<size_t>::max()\<close>.

  A stored edge cost or heuristic value (\<open>double\<close>) is the real number it denotes, and
  so is the finite sentinel \<open>std::numeric_limits<double>::max()\<close>. A NaN fails the test
  \<open>cost >= 0.0\<close> of \<open>addEdge\<close> and is never stored; an infinite stored cost has no
  counterpart here. The sums that the searches form are rounded as binary64 arithmetic
  rounds them, and may overflow to an infinity: see the section on double arithmetic.

  An adjacency row is iterated by the searches, so it is an association list in key
  order, as a \<open>std::map\<close> is traversed. The two property tables are only looked up, so
  they are partial functions.
\<close>

type_synonym EdgeId = "nat \<times> nat"
type_synonym Solution = "nat list"
type_synonym Heuristic = "nat \<rightharpoonup> real"
type_synonym Row = "(nat \<times> real) list"
type_synonym Graph = "Row list"

record ('n, 'e) GraphBase =
  graph :: Graph
  node_properties :: "nat \<rightharpoonup> 'n"
  edge_properties :: "EdgeId \<rightharpoonup> 'e"
  start_idx :: nat
  goal_idx :: nat
  is_created :: bool

definition kSizeMax :: nat where
  \<comment> \<open>\<open>std::numeric_limits<size_t>::max()\<close> for a 64-bit \<open>size_t\<close>\<close>
  "kSizeMax = 2 ^ 64 - 1"

definition kDoubleMax :: real where
  \<comment> \<open>\<open>std::numeric_limits<double>::max()\<close>, that is \<open>(2 - 2\<^sup>-\<^sup>5\<^sup>2) * 2\<^sup>1\<^sup>0\<^sup>2\<^sup>3\<close>\<close>
  "kDoubleMax = (2 ^ 53 - 1) * 2 ^ 971"

text \<open>A 32-bit \<open>int\<close> is a word of 32 bits, read as a signed number by \<open>sint\<close>.\<close>

type_synonym int32 = "32 word"

definition kIntMax :: int32 where
  \<comment> \<open>\<open>std::numeric_limits<int>::max()\<close> for a 32-bit \<open>int\<close>\<close>
  "kIntMax = 2 ^ 31 - 1"

subsection \<open>Double arithmetic\<close>

text \<open>
  A \<open>double\<close> variable that receives a sum of finite operands holds a finite binary64
  number or an infinity (no NaN arises from finite operands). The comparisons \<open><\<close> and
  \<open>>=\<close> of C++ on such values are those of the linear order with the infinities at its
  ends.
\<close>

datatype double = Finite real | PlusInfinity | MinusInfinity

instantiation double :: linorder
begin

definition less_eq_double :: "double \<Rightarrow> double \<Rightarrow> bool" where
  "less_eq_double x y =
     (case x of
        MinusInfinity \<Rightarrow> True
      | Finite a \<Rightarrow>
          (case y of MinusInfinity \<Rightarrow> False | Finite b \<Rightarrow> a \<le> b | PlusInfinity \<Rightarrow> True)
      | PlusInfinity \<Rightarrow>
          (case y of PlusInfinity \<Rightarrow> True | Finite b \<Rightarrow> False | MinusInfinity \<Rightarrow> False))"

definition less_double :: "double \<Rightarrow> double \<Rightarrow> bool" where
  "less_double x y = (x \<le> y \<and> \<not> y \<le> x)"

instance
proof
  fix x y z :: double
  show "(x < y) = (x \<le> y \<and> \<not> y \<le> x)" by (simp add: less_double_def)
  show "x \<le> x" by (simp add: less_eq_double_def split: double.splits)
  show "x \<le> y \<Longrightarrow> y \<le> z \<Longrightarrow> x \<le> z"
    by (auto simp: less_eq_double_def split: double.splits)
  show "x \<le> y \<Longrightarrow> y \<le> x \<Longrightarrow> x = y"
    by (auto simp: less_eq_double_def split: double.splits)
  show "x \<le> y \<or> y \<le> x"
    by (auto simp: less_eq_double_def split: double.splits)
qed

end

text \<open>
  The finite binary64 numbers are the reals \<open>m * 2\<^sup>e\<close> with \<open>|m| < 2\<^sup>5\<^sup>3\<close> and
  \<open>-1074 \<le> e \<le> 971\<close> (the two zeros are one number here).

  \<open>round_double\<close> is the rounding of an exact result in the default mode, to the nearest
  binary64 number, a tie to the one with the even significand. The binary exponent of a
  positive \<open>x\<close> is the \<open>k\<close> with \<open>2\<^sup>k \<le> x < 2\<^sup>k\<^sup>+\<^sup>1\<close>, found by halving or doubling \<open>x\<close> until it
  lies between 1 and 2. The spacing of the binary64 numbers around \<open>x\<close> is \<open>2\<close> to the
  power \<open>ulp_exponent x\<close>: 52 below the binary exponent of \<open>|x|\<close>, and no less than -1074,
  where the subnormal numbers lie. A result that rounds beyond the largest finite number
  is an infinity.

  \<open>double_add\<close> is \<open>a + b\<close> for a variable \<open>a\<close> and a finite \<open>b\<close>: the exact sum, rounded.
\<close>

definition is_double :: "real \<Rightarrow> bool" where
  "is_double x \<longleftrightarrow>
     (\<exists>m e :: int. \<bar>m\<bar> < 2 ^ 53 \<and> - 1074 \<le> e \<and> e \<le> 971 \<and> x = of_int m * 2 powi e)"

lemma floor_log2_half: "0 < x \<Longrightarrow> \<lfloor>log 2 (x / 2)\<rfloor> = \<lfloor>log 2 x\<rfloor> - 1"
proof -
  assume "0 < x"
  then have "log 2 (x / 2) = log 2 x - 1" by (simp add: log_divide)
  then show ?thesis by simp
qed

lemma floor_log2_twice: "0 < x \<Longrightarrow> \<lfloor>log 2 (x * 2)\<rfloor> = \<lfloor>log 2 x\<rfloor> + 1"
proof -
  assume "0 < x"
  then have "log 2 (x * 2) = log 2 x + 1" by (simp add: log_mult)
  then show ?thesis by simp
qed

function binary_exponent :: "real \<Rightarrow> int" where
  "binary_exponent x =
     (if 2 \<le> x then binary_exponent (x / 2) + 1
      else if 0 < x \<and> x < 1 then binary_exponent (x * 2) - 1
      else 0)"
  by pat_completeness auto
termination
proof (relation "measure (\<lambda>x. nat \<bar>\<lfloor>log 2 x\<rfloor>\<bar>)", goal_cases)
  case 1
  show ?case by simp
next
  case (2 x)
  then have "1 \<le> log 2 x" by (simp add: le_log_iff)
  then have "1 \<le> \<lfloor>log 2 x\<rfloor>" by linarith
  with 2 show ?case by (simp add: floor_log2_half)
next
  case (3 x)
  then have "log 2 x < 0" by simp
  then have "\<lfloor>log 2 x\<rfloor> \<le> - 1" by linarith
  with 3 show ?case by (simp add: floor_log2_twice)
qed

declare binary_exponent.simps [simp del]

definition round_to_even :: "real \<Rightarrow> int" where
  "round_to_even y =
     (let f = \<lfloor>y\<rfloor>; d = y - of_int f
      in if d < 1 / 2 then f else if d > 1 / 2 then f + 1 else if even f then f else f + 1)"

definition ulp_exponent :: "real \<Rightarrow> int" where
  "ulp_exponent x = max (binary_exponent \<bar>x\<bar> - 52) (- 1074)"

definition round_double :: "real \<Rightarrow> double" where
  "round_double x =
     (if x = 0 then Finite 0
      else let r = of_int (round_to_even (x / 2 powi ulp_exponent x)) * 2 powi ulp_exponent x
        in if r > kDoubleMax then PlusInfinity
           else if r < - kDoubleMax then MinusInfinity
           else Finite r)"

fun double_add :: "double \<Rightarrow> real \<Rightarrow> double" where
  "double_add (Finite a) b = round_double (a + b)"
| "double_add PlusInfinity b = PlusInfinity"
| "double_add MinusInfinity b = MinusInfinity"

subsection \<open>The standard containers\<close>

text \<open>\<open>row[k] = v\<close> on a \<open>std::map\<close>: replaces the value of an existing key, inserts a new
  key at its place in key order.\<close>

fun map_assign :: "nat \<Rightarrow> 'v \<Rightarrow> (nat \<times> 'v) list \<Rightarrow> (nat \<times> 'v) list" where
  "map_assign k v [] = [(k, v)]"
| "map_assign k v ((k', v') # m) =
     (if k < k' then (k, v) # (k', v') # m
      else if k = k' then (k, v) # m
      else (k', v') # map_assign k v m)"

text \<open>\<open>row.count(k)\<close> and \<open>row.at(k)\<close>.\<close>

definition map_count :: "nat \<Rightarrow> (nat \<times> 'v) list \<Rightarrow> nat" where
  "map_count k m = (if k \<in> fst ` set m then 1 else 0)"

definition map_at :: "nat \<Rightarrow> (nat \<times> 'v) list \<Rightarrow> 'v option" where
  "map_at k m = map_of m k"

text \<open>\<open>m.insert(std::make_pair(k, v))\<close>: an existing key keeps its old value.\<close>

definition map_insert :: "'k \<Rightarrow> 'v \<Rightarrow> ('k \<rightharpoonup> 'v) \<Rightarrow> ('k \<rightharpoonup> 'v)" where
  "map_insert k v m = (case m k of None \<Rightarrow> m(k \<mapsto> v) | Some old \<Rightarrow> m)"

text \<open>A \<open>std::set<size_t>\<close> is a list in increasing order without repetition.\<close>

fun set_insert :: "nat \<Rightarrow> nat list \<Rightarrow> nat list" where
  "set_insert x [] = [x]"
| "set_insert x (y # ys) =
     (if x < y then x # y # ys
      else if x = y then y # ys
      else y # set_insert x ys)"

definition set_erase :: "nat \<Rightarrow> nat list \<Rightarrow> nat list" where
  "set_erase x xs = filter (\<lambda>y. y \<noteq> x) xs"

text \<open>\<open>std::min_element(first, last, comp)\<close> with \<open>comp(i, j) = key[i] < key[j]\<close>: the first
  of the smallest elements. \<open>min_element_from\<close> is its loop, \<open>smallest\<close> the running
  answer.\<close>

primrec min_element_from :: "(nat \<Rightarrow> double) \<Rightarrow> nat \<Rightarrow> nat list \<Rightarrow> nat" where
  "min_element_from key smallest [] = smallest"
| "min_element_from key smallest (x # xs) =
     min_element_from key (if key x < key smallest then x else smallest) xs"

subsection \<open>Existence predicates and accessors\<close>

definition nodeExists :: "('n, 'e) GraphBase \<Rightarrow> nat \<Rightarrow> bool" where
  "nodeExists g node_id \<longleftrightarrow> node_id < length (graph g)"

definition nodePropertyExists :: "('n, 'e) GraphBase \<Rightarrow> nat \<Rightarrow> bool" where
  "nodePropertyExists g node_id \<longleftrightarrow> node_properties g node_id \<noteq> None"

definition edgeExists :: "('n, 'e) GraphBase \<Rightarrow> EdgeId \<Rightarrow> bool" where
  "edgeExists g edge_id \<longleftrightarrow>
     nodeExists g (fst edge_id) \<and> map_count (snd edge_id) (graph g ! fst edge_id) > 0"

definition edgePropertyExists :: "('n, 'e) GraphBase \<Rightarrow> EdgeId \<Rightarrow> bool" where
  "edgePropertyExists g edge_id \<longleftrightarrow> edge_properties g edge_id \<noteq> None"

text \<open>\<open>getEdgeCost\<close> returns its flag and the value written to \<open>*cost\<close>. In the first
  branch \<open>edgeExists\<close> has established that both \<open>at\<close> calls find their key.\<close>

definition getEdgeCost :: "('n, 'e) GraphBase \<Rightarrow> EdgeId \<Rightarrow> bool \<times> real" where
  "getEdgeCost g edge_id =
     (if edgeExists g edge_id
      then (True, the (map_at (snd edge_id) (graph g ! fst edge_id)))
      else (False, -1))"

text \<open>The property accessors return a pointer or \<open>nullptr\<close>.\<close>

definition getNodeProperty :: "('n, 'e) GraphBase \<Rightarrow> nat \<Rightarrow> 'n option" where
  "getNodeProperty g node_id =
     (if nodePropertyExists g node_id then node_properties g node_id else None)"

definition getEdgeProperty :: "('n, 'e) GraphBase \<Rightarrow> EdgeId \<Rightarrow> 'e option" where
  "getEdgeProperty g edge_id =
     (if edgePropertyExists g edge_id then edge_properties g edge_id else None)"

subsection \<open>Construction and mutation\<close>

text \<open>
  A mutating member function takes the object and returns its result with the object
  after the call. The virtual member functions \<open>addEdges\<close> and \<open>calculateHeuristic\<close> are
  parameters: a derived class may do anything to the members in \<open>addEdges\<close>, so the hook
  is any function from the object to a flag and the object it leaves.

  A call that has no defined result in C++ (\<open>pop_back\<close> on an empty vector,
  \<open>erase(end())\<close>, indexing a vector out of range) is \<open>None\<close>.
\<close>

type_synonym ('n, 'e) AddEdgesHook =
  "('n, 'e) GraphBase \<Rightarrow> bool \<times> ('n, 'e) GraphBase"

type_synonym ('n, 'e) HeuristicHook =
  "('n, 'e) GraphBase \<Rightarrow> nat \<Rightarrow> bool \<times> Heuristic"

definition addEdge ::
  "('n, 'e) GraphBase \<Rightarrow> EdgeId \<Rightarrow> 'e \<Rightarrow> real \<Rightarrow> bool \<times> ('n, 'e) GraphBase" where
  "addEdge g edge_id edge_property cost =
     (if cost \<ge> 0 \<and> nodeExists g (fst edge_id)
      then (True,
        g\<lparr>graph := (graph g)[fst edge_id :=
               map_assign (snd edge_id) cost (graph g ! fst edge_id)],
          edge_properties := map_insert edge_id edge_property (edge_properties g)\<rparr>)
      else (False, g))"

definition addNode ::
  "('n, 'e) AddEdgesHook \<Rightarrow> ('n, 'e) GraphBase \<Rightarrow> 'n \<Rightarrow>
     (bool \<times> ('n, 'e) GraphBase) option" where
  "addNode addEdges g node_property =
     (let g1 = g\<lparr>graph := graph g @ [[]]\<rparr>;
          idx = length (graph g1) - 1;
          g2 = g1\<lparr>node_properties := map_insert idx node_property (node_properties g1)\<rparr>
      in case addEdges g2 of
           (True, g3) \<Rightarrow> Some (True, g3)
         | (False, g3) \<Rightarrow>
             if graph g3 = [] then None
             else let g4 = g3\<lparr>graph := butlast (graph g3)\<rparr>
               in if node_properties g4 idx = None then None
                  else Some (False,
                         g4\<lparr>node_properties := (node_properties g4)(idx := None)\<rparr>))"

definition addStartNode ::
  "('n, 'e) AddEdgesHook \<Rightarrow> ('n, 'e) GraphBase \<Rightarrow> 'n \<Rightarrow>
     (bool \<times> ('n, 'e) GraphBase) option" where
  "addStartNode addEdges g node_property =
     (let g1 = g\<lparr>start_idx := length (graph g)\<rparr>
      in case addNode addEdges g1 node_property of
           None \<Rightarrow> None
         | Some (True, g2) \<Rightarrow> Some (True, g2)
         | Some (False, g2) \<Rightarrow> Some (False, g2))"

definition addGoalNode ::
  "('n, 'e) AddEdgesHook \<Rightarrow> ('n, 'e) GraphBase \<Rightarrow> 'n \<Rightarrow>
     (bool \<times> ('n, 'e) GraphBase) option" where
  "addGoalNode addEdges g node_property =
     (let g1 = g\<lparr>goal_idx := length (graph g)\<rparr>
      in case addNode addEdges g1 node_property of
           None \<Rightarrow> None
         | Some (True, g2) \<Rightarrow> Some (True, g2)
         | Some (False, g2) \<Rightarrow> Some (False, g2))"

definition clear :: "('n, 'e) GraphBase \<Rightarrow> ('n, 'e) GraphBase" where
  "clear g = g\<lparr>graph := [], node_properties := Map.empty,
               edge_properties := Map.empty, start_idx := kSizeMax,
               goal_idx := kSizeMax, is_created := False\<rparr>"

definition clearEdges :: "('n, 'e) GraphBase \<Rightarrow> ('n, 'e) GraphBase" where
  "clearEdges g = g\<lparr>edge_properties := Map.empty,
                    graph := map (\<lambda>neighbors. []) (graph g)\<rparr>"

text \<open>The base class's own virtual functions \<open>GraphBase::create\<close>, \<open>GraphBase::addEdges\<close>
  and \<open>GraphBase::calculateHeuristic\<close> only log an error.\<close>

definition GraphBase_create :: "('n, 'e) GraphBase \<Rightarrow> bool \<times> ('n, 'e) GraphBase" where
  "GraphBase_create g = (False, g)"

definition GraphBase_addEdges :: "('n, 'e) AddEdgesHook" where
  "GraphBase_addEdges g = (False, g)"

definition GraphBase_calculateHeuristic :: "('n, 'e) HeuristicHook" where
  "GraphBase_calculateHeuristic g goal = (False, Map.empty)"

section \<open>Shortest-path search\<close>

subsection \<open>Solution reconstruction\<close>

text \<open>
  \<open>reconstructSolution\<close> follows \<open>came_from\<close> from \<open>current\<close> until a node without an
  entry, appending each predecessor, and reverses the sequence. Nothing in the function
  bounds the walk, so its loop is a partial function: \<open>None\<close> when it does not return.
\<close>

partial_function (option) reconstruct_loop ::
  "(nat \<rightharpoonup> nat) \<Rightarrow> nat \<Rightarrow> Solution \<Rightarrow> Solution option" where
  "reconstruct_loop came_from current solution =
     (case came_from current of
        None \<Rightarrow> Some solution
      | Some previous \<Rightarrow> reconstruct_loop came_from previous (solution @ [previous]))"

declare reconstruct_loop.simps [code]

definition reconstructSolution :: "(nat \<rightharpoonup> nat) \<Rightarrow> nat \<Rightarrow> Solution option" where
  "reconstructSolution came_from current =
     map_option rev (reconstruct_loop came_from current [current])"

subsection \<open>Dijkstra\<close>

text \<open>
  The local \<open>std::map<size_t, double> cost\<close> is only ever accessed with \<open>operator[]\<close>,
  which reads \<open>0.0\<close> for a key that was never written; it is a total function with that
  default. Its values are sums, so they are of the type \<open>double\<close> above. \<open>closed_set\<close> is only inserted into and tested, so it is a set; \<open>open_set\<close>
  is traversed by \<open>std::min_element\<close>, so it is a list in increasing order.

  \<open>dijkstra_neighbors\<close> is the \<open>for\<close> loop over the row of \<open>current\<close>, on the
  variables \<open>(open_set, came_from, cost)\<close>.
\<close>

fun dijkstra_neighbors ::
  "nat \<Rightarrow> nat set \<Rightarrow> Row \<Rightarrow> nat list \<times> (nat \<rightharpoonup> nat) \<times> (nat \<Rightarrow> double) \<Rightarrow>
     nat list \<times> (nat \<rightharpoonup> nat) \<times> (nat \<Rightarrow> double)" where
  "dijkstra_neighbors current closed_set [] vars = vars"
| "dijkstra_neighbors current closed_set (n # ns) (open_set, came_from, cost) =
     (if fst n \<in> closed_set
      then dijkstra_neighbors current closed_set ns (open_set, came_from, cost)
      else let open_set = set_insert (fst n) open_set;
               tentative_cost = double_add (cost current) (snd n)
        in if tentative_cost \<ge> cost (fst n)
           then dijkstra_neighbors current closed_set ns (open_set, came_from, cost)
           else dijkstra_neighbors current closed_set ns
                  (open_set, came_from(fst n \<mapsto> current), cost(fst n := tentative_cost)))"


text \<open>
  The \<open>while\<close> loop of \<open>solveDijkstra\<close> on the variables \<open>open_set\<close>, \<open>closed_set\<close>,
  \<open>came_from\<close>, \<open>cost\<close> and \<open>*solution\<close>. It reads \<open>graph_[current]\<close> unchecked, which is
  undefined for an index that is not a node. Every round closes a node or removes a
  closed node from the open set, which bounds the number of rounds.
\<close>

lemma set_set_insert: "set (set_insert x xs) = insert x (set xs)"
  by (induction xs) auto

lemma set_set_erase: "set (set_erase x xs) = set xs - {x}"
  by (auto simp: set_erase_def)

lemma min_element_from_mem: "min_element_from key smallest xs \<in> insert smallest (set xs)"
  by (induction xs arbitrary: smallest) auto

lemma dijkstra_neighbors_open_closed:
  "dijkstra_neighbors current closed_set row (open_set, came_from, cost) = (open_set', vars')
   \<Longrightarrow> set open_set' \<inter> closed_set = set open_set \<inter> closed_set"
  by (induction row arbitrary: open_set came_from cost)
     (auto simp: set_set_insert Let_def split: if_splits)

lemma search_step_decreases:
  assumes "current \<in> set open_set" and "current < n"
    and "set open_set' \<inter> insert current closed_set =
         set (set_erase current open_set) \<inter> insert current closed_set"
  shows "((card ({..<n} - insert current closed_set),
           card (set open_set' \<inter> insert current closed_set)),
          (card ({..<n} - closed_set), card (set open_set \<inter> closed_set)))
         \<in> less_than <*lex*> less_than"
proof (cases "current \<in> closed_set")
  case False
  with assms(2) have "{..<n} - insert current closed_set \<subset> {..<n} - closed_set"
    by auto
  then have "card ({..<n} - insert current closed_set) < card ({..<n} - closed_set)"
    by (intro psubset_card_mono) auto
  then show ?thesis by simp
next
  case True
  then have eq: "insert current closed_set = closed_set" by auto
  have "set (set_erase current open_set) \<inter> closed_set \<subset> set open_set \<inter> closed_set"
    using True assms(1) by (auto simp: set_set_erase)
  then have "card (set open_set' \<inter> closed_set) < card (set open_set \<inter> closed_set)"
    using assms(3) unfolding eq by (intro psubset_card_mono) auto
  then show ?thesis by (simp add: eq)
qed

function dijkstra_loop ::
  "Graph \<Rightarrow> nat \<Rightarrow> nat list \<Rightarrow> nat set \<Rightarrow> (nat \<rightharpoonup> nat) \<Rightarrow> (nat \<Rightarrow> double) \<Rightarrow> Solution \<Rightarrow>
     (bool \<times> Solution) option" where
  "dijkstra_loop adjacency goal open_set closed_set came_from cost solution =
     (case open_set of
        [] \<Rightarrow> Some (False, solution)
      | first # rest \<Rightarrow>
          let current = min_element_from cost first rest
          in if current = goal
             then map_option (Pair True) (reconstructSolution came_from current)
             else if \<not> current < length adjacency then None
             else let open_set = set_erase current open_set;
                      closed_set = insert current closed_set;
                      (open_set, came_from, cost) =
                         dijkstra_neighbors current closed_set (adjacency ! current)
                           (open_set, came_from, cost)
               in dijkstra_loop adjacency goal open_set closed_set came_from cost solution)"
  by pat_completeness auto
termination
proof (relation "inv_image (less_than <*lex*> less_than)
    (\<lambda>(adjacency, goal, open_set, closed_set, came_from, cost, solution).
       (card ({..<length adjacency} - closed_set), card (set open_set \<inter> closed_set)))",
    goal_cases)
  case 1
  show ?case by (intro wf_inv_image wf_lex_prod wf_less_than)
next
  case (2 adjacency goal open_set closed_set came_from cost solution first rest current
      os cs vars os' rest' cf' cost')
  have mem: "current \<in> set open_set"
    using 2(1,2) min_element_from_mem[of cost first rest] by simp
  have "dijkstra_neighbors current cs (adjacency ! current) (os, came_from, cost) =
        (os', cf', cost')"
    using 2 by simp
  from dijkstra_neighbors_open_closed[OF this]
  have "set os' \<inter> insert current closed_set =
        set (set_erase current open_set) \<inter> insert current closed_set"
    using 2 by simp
  from search_step_decreases[OF mem _ this, of "length adjacency"] 2(4)
  show ?case using 2(6) by simp
qed

declare dijkstra_loop.simps [simp del]

definition solveDijkstra ::
  "('n, 'e) GraphBase \<Rightarrow> nat \<Rightarrow> nat \<Rightarrow> Solution \<Rightarrow> (bool \<times> Solution) option" where
  "solveDijkstra g start goal solution =
     (let solution = []
      in if \<not> nodeExists g start \<or> \<not> nodeExists g goal then Some (False, solution)
         else let open_set = [start];
                  closed_set = {};
                  came_from = Map.empty;
                  cost = (\<lambda>i. if i < length (graph g) then Finite kDoubleMax else Finite 0);
                  cost = cost(start := Finite 0)
           in dijkstra_loop (graph g) goal open_set closed_set came_from cost solution)"

text \<open>The overload without \<open>start\<close> and \<open>goal\<close> searches between the stored markers.\<close>

definition solveDijkstra_markers ::
  "('n, 'e) GraphBase \<Rightarrow> Solution \<Rightarrow> (bool \<times> Solution) option" where
  "solveDijkstra_markers g solution = solveDijkstra g (start_idx g) (goal_idx g) solution"

subsection \<open>A*\<close>

text \<open>
  The \<open>for\<close> loop of \<open>solveAStar\<close> over the row of \<open>current\<close>, on the variables
  \<open>(open_set, came_from, cost, cost_with_heuristic)\<close>. It leaves the whole function with
  \<open>return false\<close> when the heuristic has no entry for a neighbour it has just improved:
  that exit is \<open>None\<close>.
\<close>

fun astar_neighbors ::
  "Heuristic \<Rightarrow> nat \<Rightarrow> nat set \<Rightarrow> Row \<Rightarrow>
     nat list \<times> (nat \<rightharpoonup> nat) \<times> (nat \<Rightarrow> double) \<times> (nat \<Rightarrow> double) \<Rightarrow>
     (nat list \<times> (nat \<rightharpoonup> nat) \<times> (nat \<Rightarrow> double) \<times> (nat \<Rightarrow> double)) option" where
  "astar_neighbors heuristic current closed_set [] vars = Some vars"
| "astar_neighbors heuristic current closed_set (n # ns)
     (open_set, came_from, cost, cost_with_heuristic) =
     (if fst n \<in> closed_set
      then astar_neighbors heuristic current closed_set ns
             (open_set, came_from, cost, cost_with_heuristic)
      else let open_set = set_insert (fst n) open_set;
               tentative_cost = double_add (cost current) (snd n)
        in if tentative_cost \<ge> cost (fst n)
           then astar_neighbors heuristic current closed_set ns
                  (open_set, came_from, cost, cost_with_heuristic)
           else let came_from = came_from(fst n \<mapsto> current);
                    cost = cost(fst n := tentative_cost)
             in case heuristic (fst n) of
                  None \<Rightarrow> None
                | Some h \<Rightarrow>
                    astar_neighbors heuristic current closed_set ns
                      (open_set, came_from, cost,
                       cost_with_heuristic(fst n := double_add (cost (fst n)) h)))"

lemma astar_neighbors_open_closed:
  "astar_neighbors heuristic current closed_set row (open_set, came_from, cost, cwh) =
     Some (open_set', vars')
   \<Longrightarrow> set open_set' \<inter> closed_set = set open_set \<inter> closed_set"
  by (induction row arbitrary: open_set came_from cost cwh)
     (auto simp: set_set_insert Let_def split: if_splits option.splits)

function astar_loop ::
  "Graph \<Rightarrow> Heuristic \<Rightarrow> nat \<Rightarrow> nat list \<Rightarrow> nat set \<Rightarrow> (nat \<rightharpoonup> nat) \<Rightarrow> (nat \<Rightarrow> double) \<Rightarrow>
     (nat \<Rightarrow> double) \<Rightarrow> Solution \<Rightarrow> (bool \<times> Solution) option" where
  "astar_loop adjacency heuristic goal open_set closed_set came_from cost
     cost_with_heuristic solution =
     (case open_set of
        [] \<Rightarrow> Some (False, solution)
      | first # rest \<Rightarrow>
          let current = min_element_from cost_with_heuristic first rest
          in if current = goal
             then map_option (Pair True) (reconstructSolution came_from current)
             else if \<not> current < length adjacency then None
             else let open_set = set_erase current open_set;
                      closed_set = insert current closed_set
               in (case astar_neighbors heuristic current closed_set (adjacency ! current)
                          (open_set, came_from, cost, cost_with_heuristic) of
                     None \<Rightarrow> Some (False, solution)
                   | Some (open_set, came_from, cost, cost_with_heuristic) \<Rightarrow>
                       astar_loop adjacency heuristic goal open_set closed_set came_from cost
                         cost_with_heuristic solution))"
  by pat_completeness auto
termination
proof (relation "inv_image (less_than <*lex*> less_than)
    (\<lambda>(adjacency, heuristic, goal, open_set, closed_set, came_from, cost, cwh, solution).
       (card ({..<length adjacency} - closed_set), card (set open_set \<inter> closed_set)))",
    goal_cases)
  case 1
  show ?case by (intro wf_inv_image wf_lex_prod wf_less_than)
next
  case (2 adjacency heuristic goal open_set closed_set came_from cost cwh solution first rest
      current os cs vars os' rest')
  have mem: "current \<in> set open_set"
    using 2(1,2) min_element_from_mem[of cwh first rest] by simp
  have "astar_neighbors heuristic current cs (adjacency ! current) (os, came_from, cost, cwh) =
        Some (os', rest')"
    using 2 by simp
  from astar_neighbors_open_closed[OF this]
  have "set os' \<inter> insert current closed_set =
        set (set_erase current open_set) \<inter> insert current closed_set"
    using 2 by simp
  from search_step_decreases[OF mem _ this, of "length adjacency"] 2(4)
  show ?case using 2(6) by simp
qed

declare astar_loop.simps [simp del]

definition solveAStar ::
  "('n, 'e) HeuristicHook \<Rightarrow> ('n, 'e) GraphBase \<Rightarrow> nat \<Rightarrow> nat \<Rightarrow> Solution \<Rightarrow>
     (bool \<times> Solution) option" where
  "solveAStar calculateHeuristic g start goal solution =
     (if \<not> nodeExists g start \<or> \<not> nodeExists g goal then Some (False, solution)
      else case calculateHeuristic g goal of
          (False, heuristic) \<Rightarrow> Some (False, solution)
        | (True, heuristic) \<Rightarrow>
            let open_set = [start];
                closed_set = {};
                came_from = Map.empty;
                cost = (\<lambda>i. if i < length (graph g) then Finite kDoubleMax else Finite 0);
                cost_with_heuristic =
                  (\<lambda>i. if i < length (graph g) then Finite kDoubleMax else Finite 0);
                cost = cost(start := Finite 0)
            in (case heuristic start of
                  None \<Rightarrow> Some (False, solution)
                | Some start_heuristic \<Rightarrow>
                    let cost_with_heuristic =
                          cost_with_heuristic(start := Finite start_heuristic)
                    in astar_loop (graph g) heuristic goal open_set closed_set came_from cost
                         cost_with_heuristic solution))"

definition solveAStar_markers ::
  "('n, 'e) HeuristicHook \<Rightarrow> ('n, 'e) GraphBase \<Rightarrow> Solution \<Rightarrow> (bool \<times> Solution) option" where
  "solveAStar_markers calculateHeuristic g solution =
     solveAStar calculateHeuristic g (start_idx g) (goal_idx g) solution"

section \<open>Adjacency-matrix export\<close>

text \<open>
  Modelled from the spec: \<open>doubleToMilliInt\<close> is declared in
  \<^verbatim>\<open>mav_coverage_planning/common.h\<close>, which is not part of the sources at hand. The spec
  has it multiply the cost by 1000 and round to an integer. Its result is assigned to a
  cell of a \<open>std::vector<int>\<close>, so it is an \<open>int\<close>: the rounded value when that lies in
  the range of \<open>int\<close>. C++ defines no conversion of a floating-point value outside that
  range to \<open>int\<close>: \<open>None\<close>.
\<close>

definition doubleToMilliInt :: "real \<Rightarrow> int32 option" where
  "doubleToMilliInt d =
     (let milli = round (d * 1000)
      in if - (2 ^ 31) \<le> milli \<and> milli \<le> 2 ^ 31 - 1 then Some (word_of_int milli)
         else None)"

text \<open>
  \<open>getAdjacencyMatrix\<close> fills the cells row by row; \<open>those\<close> makes the whole call
  undefined as soon as the conversion of one cell is.
\<close>

definition getAdjacencyMatrix :: "('n, 'e) GraphBase \<Rightarrow> int32 list list option" where
  "getAdjacencyMatrix g =
     those (map (\<lambda>i. those (map (\<lambda>j.
            let edge = (i, j)
            in if edgeExists g edge
               then (case getEdgeCost g edge of
                       (True, cost) \<Rightarrow> doubleToMilliInt cost
                     | (False, cost) \<Rightarrow> Some kIntMax)
               else Some kIntMax)
          [0..<length (graph g)]))
       [0..<length (graph g)])"


section \<open>Notions used to state the properties\<close>

text \<open>The invariant of the adjacency structure: no stored cost is negative.\<close>

definition costs_nonneg :: "('n, 'e) GraphBase \<Rightarrow> bool" where
  "costs_nonneg g \<longleftrightarrow> (\<forall>row \<in> set (graph g). \<forall>entry \<in> set row. 0 \<le> snd entry)"

text \<open>
  What the type \<open>std::map\<close> guarantees of a row, its keys in strictly increasing order,
  is a condition on the association list that stands for it.
\<close>

definition rows_wf :: "('n, 'e) GraphBase \<Rightarrow> bool" where
  "rows_wf g \<longleftrightarrow> (\<forall>row \<in> set (graph g). sorted_wrt (<) (map fst row))"

text \<open>Every adjacency entry points at a node of the graph.\<close>

definition targets_exist :: "('n, 'e) GraphBase \<Rightarrow> bool" where
  "targets_exist g \<longleftrightarrow> (\<forall>row \<in> set (graph g). \<forall>entry \<in> set row. nodeExists g (fst entry))"

text \<open>
  The cumulative edge cost of a sequence of nodes, read through \<open>edgeExists\<close> and
  \<open>getEdgeCost\<close>: \<open>None\<close> when the sequence is empty or some step of it is not an edge
  of the graph.
\<close>

fun path_cost :: "('n, 'e) GraphBase \<Rightarrow> nat list \<Rightarrow> real option" where
  "path_cost g [] = None"
| "path_cost g [v] = Some 0"
| "path_cost g (u # v # rest) =
     (if edgeExists g (u, v)
      then map_option (\<lambda>c. snd (getEdgeCost g (u, v)) + c) (path_cost g (v # rest))
      else None)"

text \<open>\<open>goal\<close> can be reached from \<open>start\<close> at a cumulative cost below \<open>bound\<close>; no sequence of
  edges leads from \<open>start\<close> to \<open>goal\<close>.\<close>

definition reachable_below :: "('n, 'e) GraphBase \<Rightarrow> nat \<Rightarrow> nat \<Rightarrow> real \<Rightarrow> bool" where
  "reachable_below g start goal bound \<longleftrightarrow>
     (\<exists>q a. path_cost g q = Some a \<and> hd q = start \<and> last q = goal \<and> a < bound)"

definition unreachable :: "('n, 'e) GraphBase \<Rightarrow> nat \<Rightarrow> nat \<Rightarrow> bool" where
  "unreachable g start goal \<longleftrightarrow>
     (\<forall>q a. path_cost g q = Some a \<longrightarrow> hd q = start \<longrightarrow> last q \<noteq> goal)"

text \<open>
  A heuristic is admissible when its estimate for a node never exceeds the cost of any
  path from that node to the goal, and consistent when along every edge it drops by no
  more than the cost of the edge.
\<close>

definition admissible :: "('n, 'e) GraphBase \<Rightarrow> nat \<Rightarrow> Heuristic \<Rightarrow> bool" where
  "admissible g goal heuristic \<longleftrightarrow>
     (\<forall>q a. path_cost g q = Some a \<longrightarrow> nodeExists g (hd q) \<longrightarrow> last q = goal \<longrightarrow>
            the (heuristic (hd q)) \<le> a)"

definition consistent_heuristic :: "('n, 'e) GraphBase \<Rightarrow> Heuristic \<Rightarrow> bool" where
  "consistent_heuristic g heuristic \<longleftrightarrow>
     (\<forall>u v. edgeExists g (u, v) \<longrightarrow>
        the (heuristic u) \<le> snd (getEdgeCost g (u, v)) + the (heuristic v))"

text \<open>
  No addition of a search from \<open>start\<close> is rounded: for every path from \<open>start\<close> without a
  repeated node, its cumulative cost plus the cost of any edge that leaves its last node
  is a binary64 number (\<open>sums_exact\<close>), and so is that sum plus the estimate for the node
  the edge leads to (\<open>estimates_exact\<close>).
\<close>

definition sums_exact :: "('n, 'e) GraphBase \<Rightarrow> nat \<Rightarrow> bool" where
  "sums_exact g start \<longleftrightarrow>
     (\<forall>q a v. path_cost g q = Some a \<longrightarrow> hd q = start \<longrightarrow> distinct q \<longrightarrow>
        edgeExists g (last q, v) \<longrightarrow>
        is_double (a + snd (getEdgeCost g (last q, v))))"

definition estimates_exact :: "('n, 'e) GraphBase \<Rightarrow> nat \<Rightarrow> Heuristic \<Rightarrow> bool" where
  "estimates_exact g start heuristic \<longleftrightarrow>
     (\<forall>q a v hv. path_cost g q = Some a \<longrightarrow> hd q = start \<longrightarrow> distinct q \<longrightarrow>
        edgeExists g (last q, v) \<longrightarrow> heuristic v = Some hv \<longrightarrow>
        is_double (a + snd (getEdgeCost g (last q, v)) + hv))"

text \<open>
  That is so when all numbers lie on one binary grid and stay below 53 bits on it: every
  stored cost is \<open>k * 2\<^sup>e\<close> for a natural number \<open>k \<le> K\<close>, every estimate of a node is
  \<open>z * 2\<^sup>e\<close> for an integer \<open>z\<close> with \<open>|z| \<le> Z\<close>, where \<open>-1074 \<le> e \<le> 971\<close> and
  \<open>N * K + Z < 2\<^sup>5\<^sup>3\<close> for the number \<open>N\<close> of nodes. Costs and estimates that are whole
  numbers are the case \<open>e = 0\<close>.
\<close>

definition costs_on_grid :: "('n, 'e) GraphBase \<Rightarrow> int \<Rightarrow> nat \<Rightarrow> bool" where
  "costs_on_grid g e K \<longleftrightarrow>
     (\<forall>row \<in> set (graph g). \<forall>entry \<in> set row.
        \<exists>k :: nat. k \<le> K \<and> snd entry = of_nat k * 2 powi e)"

definition estimates_on_grid :: "('n, 'e) GraphBase \<Rightarrow> Heuristic \<Rightarrow> int \<Rightarrow> nat \<Rightarrow> bool" where
  "estimates_on_grid g heuristic e Z \<longleftrightarrow>
     (\<forall>v < length (graph g). \<forall>hv. heuristic v = Some hv \<longrightarrow>
        (\<exists>z :: int. \<bar>z\<bar> \<le> int Z \<and> hv = of_int z * 2 powi e))"

text \<open>The cost of every edge between two nodes, times 1000 and rounded, lies in the range
  of a 32-bit \<open>int\<close>.\<close>

definition costs_fit_int :: "('n, 'e) GraphBase \<Rightarrow> bool" where
  "costs_fit_int g \<longleftrightarrow>
     (\<forall>i < length (graph g). \<forall>j < length (graph g). \<forall>c.
        map_of (graph g ! i) j = Some c \<longrightarrow>
        - (2 ^ 31) \<le> round (c * 1000) \<and> round (c * 1000) \<le> 2 ^ 31 - 1)"

subsection \<open>Example graphs and hooks\<close>

text \<open>Two nodes and the edge \<open>0 \<rightarrow> 1\<close> of cost 1, with the markers unset.\<close>

definition one_edge_graph :: "(string, string) GraphBase" where
  "one_edge_graph = \<lparr>graph = [[(1, 1)], []],
     node_properties = [0 \<mapsto> ''a'', 1 \<mapsto> ''b''],
     edge_properties = [(0, 1) \<mapsto> ''old''],
     start_idx = kSizeMax, goal_idx = kSizeMax, is_created = False\<rparr>"

text \<open>The scenario of the specification: four nodes, edges \<open>0 \<rightarrow> 1\<close> (1), \<open>1 \<rightarrow> 2\<close> (1),
  \<open>0 \<rightarrow> 2\<close> (3) and \<open>2 \<rightarrow> 3\<close> (1).\<close>

definition scenario_graph :: "(string, string) GraphBase" where
  "scenario_graph = \<lparr>graph = [[(1, 1), (2, 3)], [(2, 1)], [(3, 1)], []],
     node_properties = Map.empty, edge_properties = Map.empty,
     start_idx = 0, goal_idx = 3, is_created = True\<rparr>"

text \<open>A \<open>calculateHeuristic\<close> for the scenario: the exact remaining cost to node 3.\<close>

definition scenario_heuristic :: "(string, string) HeuristicHook" where
  "scenario_heuristic g goal = (True, [0 \<mapsto> 3, 1 \<mapsto> 2, 2 \<mapsto> 1, 3 \<mapsto> 0])"

text \<open>Node 0 has an edge to node 1 and an edge to the index 5, which is no node.\<close>

definition dangling_graph :: "(string, string) GraphBase" where
  "dangling_graph = \<lparr>graph = [[(1, 1), (5, 1)], []],
     node_properties = Map.empty, edge_properties = Map.empty,
     start_idx = 0, goal_idx = 1, is_created = True\<rparr>"

text \<open>The only edge, \<open>0 \<rightarrow> 1\<close>, costs \<open>std::numeric_limits<double>::max()\<close>.\<close>

definition huge_edge_graph :: "(string, string) GraphBase" where
  "huge_edge_graph = \<lparr>graph = [[(1, kDoubleMax)], []],
     node_properties = Map.empty, edge_properties = Map.empty,
     start_idx = 0, goal_idx = 1, is_created = True\<rparr>"

text \<open>
  The direct edge \<open>0 \<rightarrow> 2\<close> (3) is dearer than the way round over node 1 (1 + 1); the
  goal 3 hangs on node 2 (10). The heuristic is exact at node 1 (11) and zero elsewhere:
  it never overestimates, but it drops by 11 along the edge \<open>1 \<rightarrow> 2\<close> of cost 1.
\<close>

definition detour_graph :: "(string, string) GraphBase" where
  "detour_graph = \<lparr>graph = [[(1, 1), (2, 3)], [(2, 1)], [(3, 10)], []],
     node_properties = Map.empty, edge_properties = Map.empty,
     start_idx = 0, goal_idx = 3, is_created = True\<rparr>"

definition detour_heuristic :: "(string, string) HeuristicHook" where
  "detour_heuristic g goal = (True, [0 \<mapsto> 0, 1 \<mapsto> 11, 2 \<mapsto> 0, 3 \<mapsto> 0])"

text \<open>
  The way \<open>0 \<rightarrow> 1 \<rightarrow> 2 \<rightarrow> 3 \<rightarrow> 4\<close> costs \<open>1 + 3 * 2\<^sup>-\<^sup>5\<^sup>3\<close>, the direct edge \<open>0 \<rightarrow> 4\<close>
  costs \<open>1 + 2\<^sup>-\<^sup>5\<^sup>2\<close>, which is less. All costs are binary64 numbers.
\<close>

definition rounding_graph :: "(string, string) GraphBase" where
  "rounding_graph = \<lparr>graph = [[(1, 1), (4, 1 + 1 / 2 ^ 52)], [(2, 1 / 2 ^ 53)],
       [(3, 1 / 2 ^ 53)], [(4, 1 / 2 ^ 53)], []],
     node_properties = Map.empty, edge_properties = Map.empty,
     start_idx = 0, goal_idx = 4, is_created = True\<rparr>"

text \<open>
  Node 1 is reached over the edge \<open>0 \<rightarrow> 1\<close> (2) or over node 2 (1 + 1/2); the goal 3 hangs
  on node 1 (\<open>2\<^sup>6\<^sup>0\<close>). The heuristic is \<open>2\<^sup>6\<^sup>0\<close> at the nodes 0, 1, 2 and zero at the goal:
  it drops along no edge but \<open>1 \<rightarrow> 3\<close>, and there by the cost of the edge.
\<close>

definition absorbing_graph :: "(string, string) GraphBase" where
  "absorbing_graph = \<lparr>graph = [[(1, 2), (2, 1)], [(3, 2 ^ 60)], [(1, 1 / 2)], []],
     node_properties = Map.empty, edge_properties = Map.empty,
     start_idx = 0, goal_idx = 3, is_created = True\<rparr>"

definition absorbing_heuristic :: "(string, string) HeuristicHook" where
  "absorbing_heuristic g goal = (True, [0 \<mapsto> 2 ^ 60, 1 \<mapsto> 2 ^ 60, 2 \<mapsto> 2 ^ 60, 3 \<mapsto> 0])"

text \<open>The only edge, \<open>0 \<rightarrow> 1\<close>, costs three million.\<close>

definition dear_edge_graph :: "(string, string) GraphBase" where
  "dear_edge_graph = \<lparr>graph = [[(1, 3000000)], []],
     node_properties = Map.empty, edge_properties = Map.empty,
     start_idx = 0, goal_idx = 1, is_created = True\<rparr>"

text \<open>An \<open>addEdges\<close> that adds the edge from node 0 to the new node, and one that adds
  the same edge and then reports failure.\<close>

definition edge_hook :: "(string, string) AddEdgesHook" where
  "edge_hook g = addEdge g (0, length (graph g) - 1) ''e'' 5"

definition failing_hook :: "(string, string) AddEdgesHook" where
  "failing_hook g = (False, snd (addEdge g (0, length (graph g) - 1) ''e'' 5))"

text \<open>An \<open>addEdges\<close> that adds the edge from the new node to node 0 and then reports
  failure.\<close>

definition failing_out_hook :: "(string, string) AddEdgesHook" where
  "failing_out_hook g = (False, snd (addEdge g (length (graph g) - 1, 0) ''e'' 5))"

text \<open>An \<open>addEdges\<close> that adds no edge and reports success.\<close>

definition accepting_hook :: "(string, string) AddEdgesHook" where
  "accepting_hook g = (True, g)"

text \<open>A \<open>calculateHeuristic\<close> that estimates zero for every node.\<close>

definition zero_heuristic :: "(string, string) HeuristicHook" where
  "zero_heuristic g goal = (True, \<lambda>node. Some 0)"

subsection \<open>Notions of the proofs about the searches\<close>

text \<open>
  On the adjacency rows alone: \<open>has_edge\<close> is an entry of a row; a \<open>walk\<close> from \<open>s\<close> is a
  sequence of nodes grown edge by edge, with the sum of the costs; \<open>tree_path\<close> is the
  sequence that \<open>reconstructSolution\<close> reads off \<open>came_from\<close> for a node.
\<close>

definition has_edge :: "Graph \<Rightarrow> nat \<Rightarrow> nat \<Rightarrow> real \<Rightarrow> bool" where
  "has_edge adj u v c \<longleftrightarrow> u < length adj \<and> (v, c) \<in> set (adj ! u)"

inductive walk :: "Graph \<Rightarrow> nat \<Rightarrow> nat list \<Rightarrow> real \<Rightarrow> bool" for adj s where
  walk_start: "walk adj s [s] 0"
| walk_step: "walk adj s p a \<Longrightarrow> has_edge adj (last p) v c \<Longrightarrow> walk adj s (p @ [v]) (a + c)"

inductive tree_path :: "(nat \<rightharpoonup> nat) \<Rightarrow> nat list \<Rightarrow> nat \<Rightarrow> bool" for came_from where
  tree_root: "came_from v = None \<Longrightarrow> tree_path came_from [v] v"
| tree_step: "came_from v = Some u \<Longrightarrow> tree_path came_from p u \<Longrightarrow> tree_path came_from (p @ [v]) v"

text \<open>The rows are fit for a search when every entry points at a node and has a
  non-negative cost; \<open>consistent\<close> is the consistency of a total estimate on them;
  \<open>grid_adj\<close> is \<open>costs_on_grid\<close>, and \<open>exact_adj\<close> is \<open>sums_exact\<close> with
  \<open>estimates_exact\<close>, on them.\<close>

definition adj_wf :: "Graph \<Rightarrow> bool" where
  "adj_wf adj \<longleftrightarrow> (\<forall>u v c. has_edge adj u v c \<longrightarrow> v < length adj \<and> 0 \<le> c)"

definition grid_adj :: "Graph \<Rightarrow> int \<Rightarrow> nat \<Rightarrow> bool" where
  "grid_adj adj e K \<longleftrightarrow>
     (\<forall>u v c. has_edge adj u v c \<longrightarrow> (\<exists>k :: nat. k \<le> K \<and> c = of_nat k * 2 powi e))"

definition exact_adj :: "Graph \<Rightarrow> (nat \<Rightarrow> real) \<Rightarrow> nat \<Rightarrow> bool" where
  "exact_adj adj h start \<longleftrightarrow>
     (\<forall>p a v c. walk adj start p a \<longrightarrow> distinct p \<longrightarrow> has_edge adj (last p) v c \<longrightarrow>
        is_double (a + c) \<and> is_double (a + c + h v))"

text \<open>The variables \<open>cost\<close> and \<open>cost_with_heuristic\<close> when they hold the real numbers \<open>f\<close>
  as finite values.\<close>

definition finite_labels :: "(nat \<Rightarrow> real) \<Rightarrow> nat \<Rightarrow> double" where
  "finite_labels f = (\<lambda>v. Finite (f v))"

definition consistent :: "Graph \<Rightarrow> (nat \<Rightarrow> real) \<Rightarrow> bool" where
  "consistent adj h \<longleftrightarrow> (\<forall>u v c. has_edge adj u v c \<longrightarrow> h u \<le> c + h v)"

text \<open>
  The invariant of the \<open>while\<close> loops, stated for A* with the estimate \<open>h\<close> (Dijkstra is
  the case \<open>h = 0\<close>). It speaks of the real numbers \<open>cost\<close> and \<open>cwh\<close> that the variables
  \<open>cost\<close> and \<open>cost_with_heuristic\<close> hold as \<open>Finite\<close> values as long as every sum is
  exact. While the row of \<open>u\<close> is being worked through, \<open>pending\<close> holds the entries not
  yet looked at; at the head of the \<open>while\<close> loop it is empty.
  \<^item> \<open>inv_sets\<close>: open and closed nodes are nodes, no node is both, and \<open>start\<close> is one
    of them.
  \<^item> \<open>inv_labels\<close>: \<open>cost\<close> is 0 at \<open>start\<close> and never negative; a node either has a cost
    below the sentinel and \<open>cost_with_heuristic\<close> is that cost plus the estimate, or both
    still hold the sentinel.
  \<^item> \<open>inv_relaxed\<close>: every edge out of a closed node, unless pending, leads to a node that
    is closed or open, and an open one costs no more than the way over that edge.
  \<^item> \<open>inv_tree\<close>: for a node with a cost below the sentinel, \<open>came_from\<close> describes a
    walk from \<open>start\<close> of exactly that cost, through closed nodes, without a repeated
    node.
  \<^item> \<open>inv_closed\<close>: \<open>goal\<close> is not closed, and the cost of a closed node is below the
    sentinel and no walk from \<open>start\<close> reaches the node cheaper.
\<close>

definition inv_sets :: "Graph \<Rightarrow> nat \<Rightarrow> nat list \<Rightarrow> nat set \<Rightarrow> bool" where
  "inv_sets adj start open_set closed_set \<longleftrightarrow>
     set open_set \<subseteq> {..<length adj} \<and> closed_set \<subseteq> {..<length adj}
     \<and> set open_set \<inter> closed_set = {} \<and> start \<in> set open_set \<union> closed_set"

definition inv_labels :: "Graph \<Rightarrow> (nat \<Rightarrow> real) \<Rightarrow> nat \<Rightarrow> (nat \<Rightarrow> real) \<Rightarrow> (nat \<Rightarrow> real) \<Rightarrow> bool" where
  "inv_labels adj h start cost cwh \<longleftrightarrow>
     cost start = 0
     \<and> (\<forall>v < length adj. 0 \<le> cost v
           \<and> (cost v < kDoubleMax \<and> cwh v = cost v + h v
               \<or> cost v = kDoubleMax \<and> cwh v = kDoubleMax))"

definition inv_relaxed ::
  "Graph \<Rightarrow> nat \<Rightarrow> Row \<Rightarrow> nat list \<Rightarrow> nat set \<Rightarrow> (nat \<Rightarrow> real) \<Rightarrow> bool" where
  "inv_relaxed adj u pending open_set closed_set cost \<longleftrightarrow>
     (\<forall>x v c. x \<in> closed_set \<longrightarrow> has_edge adj x v c \<longrightarrow>
        (x = u \<and> (v, c) \<in> set pending)
        \<or> (v \<in> closed_set \<union> set open_set \<and> (v \<notin> closed_set \<longrightarrow> cost v \<le> cost x + c)))"

definition inv_tree ::
  "Graph \<Rightarrow> nat \<Rightarrow> nat set \<Rightarrow> (nat \<rightharpoonup> nat) \<Rightarrow> (nat \<Rightarrow> real) \<Rightarrow> bool" where
  "inv_tree adj start closed_set came_from cost \<longleftrightarrow>
     (\<forall>v < length adj. cost v < kDoubleMax \<longrightarrow>
        (\<exists>p. tree_path came_from p v \<and> walk adj start p (cost v)
             \<and> set (butlast p) \<subseteq> closed_set \<and> distinct p))"

definition inv_closed :: "Graph \<Rightarrow> nat \<Rightarrow> nat \<Rightarrow> nat set \<Rightarrow> (nat \<Rightarrow> real) \<Rightarrow> bool" where
  "inv_closed adj start goal closed_set cost \<longleftrightarrow>
     goal \<notin> closed_set
     \<and> (\<forall>x \<in> closed_set. cost x < kDoubleMax
           \<and> (\<forall>q a. walk adj start q a \<longrightarrow> last q = x \<longrightarrow> cost x \<le> a))"

definition search_inv ::
  "Graph \<Rightarrow> (nat \<Rightarrow> real) \<Rightarrow> nat \<Rightarrow> nat \<Rightarrow> nat \<Rightarrow> Row \<Rightarrow>
     nat list \<Rightarrow> nat set \<Rightarrow> (nat \<rightharpoonup> nat) \<Rightarrow> (nat \<Rightarrow> real) \<Rightarrow> (nat \<Rightarrow> real) \<Rightarrow> bool" where
  "search_inv adj h start goal u pending open_set closed_set came_from cost cwh \<longleftrightarrow>
     inv_sets adj start open_set closed_set
     \<and> inv_labels adj h start cost cwh
     \<and> inv_relaxed adj u pending open_set closed_set cost
     \<and> inv_tree adj start closed_set came_from cost
     \<and> inv_closed adj start goal closed_set cost"

section \<open>Facts of double arithmetic\<close>

text \<open>The order of the finite values is that of the reals; \<open>binary_exponent\<close> is the
  integer part of the binary logarithm; a binary64 number is rounded to itself, and so is
  every sum that is a binary64 number; \<open>round_double_eval\<close> gives the rounding of a
  positive number whose binary exponent is known.\<close>

lemma Finite_le [simp]: "Finite a \<le> Finite b \<longleftrightarrow> a \<le> b"
  by (simp add: less_eq_double_def)

lemma Finite_less [simp]: "Finite a < Finite b \<longleftrightarrow> a < b"
  by (auto simp: less_double_def)

lemma round_to_even_of_int [simp]: "round_to_even (of_int k) = k"
  by (simp add: round_to_even_def)

lemma binary_exponent_log: "0 < x \<Longrightarrow> binary_exponent x = \<lfloor>log 2 x\<rfloor>"
proof (induction x rule: binary_exponent.induct)
  case (1 x)
  show ?case
  proof (cases "2 \<le> x")
    case True
    with "1.IH"(1) "1.prems" show ?thesis
      by (subst binary_exponent.simps) (simp add: floor_log2_half)
  next
    case False
    show ?thesis
    proof (cases "x < 1")
      case True
      with False "1.IH"(2) "1.prems" show ?thesis
        by (subst binary_exponent.simps) (simp add: floor_log2_twice)
    next
      case False
      with \<open>\<not> 2 \<le> x\<close> have "1 \<le> x" "x < 2" by simp_all
      then have "0 \<le> log 2 x" "log 2 x < 1" by (simp_all add: log_less_iff)
      then have "\<lfloor>log 2 x\<rfloor> = 0" by linarith
      with False \<open>\<not> 2 \<le> x\<close> show ?thesis
        by (subst binary_exponent.simps) simp
    qed
  qed
qed

lemma floor_log2_eq:
  assumes "0 < x" "2 powi k \<le> x" "x < 2 powi (k + 1)"
  shows "\<lfloor>log 2 x\<rfloor> = k"
proof -
  have "2 powr (real_of_int k) = (2::real) powi k"
    by (simp add: powr_real_of_int')
  moreover have "2 powr (real_of_int (k + 1)) = (2::real) powi (k + 1)"
    by (rule powr_real_of_int') simp_all
  then have "2 powr (real_of_int k + 1) = (2::real) powi (k + 1)" by simp
  ultimately show ?thesis
    using assms by (subst floor_log_eq_powr_iff) simp_all
qed

lemma floor_log2_bounds:
  assumes "0 < x"
  shows "2 powi \<lfloor>log 2 x\<rfloor> \<le> x \<and> x < 2 powi (\<lfloor>log 2 x\<rfloor> + 1)"
proof -
  have "2 powr (real_of_int k) = (2::real) powi k" for k
    by (simp add: powr_real_of_int')
  with floor_log_eq_powr_iff[of x 2 "\<lfloor>log 2 x\<rfloor>"] assms show ?thesis
    by (metis one_less_numeral_iff semiring_norm(76))
qed

lemma kDoubleMax_powi: "kDoubleMax = (2 ^ 53 - 1) * 2 powi 971"
  by (simp add: kDoubleMax_def)

lemma is_double_bound:
  assumes "is_double x"
  shows "\<bar>x\<bar> \<le> kDoubleMax"
proof -
  from assms obtain m e :: int where m: "\<bar>m\<bar> < 2 ^ 53" and e: "- 1074 \<le> e" "e \<le> 971"
    and x: "x = of_int m * 2 powi e" by (auto simp: is_double_def)
  from m have "\<bar>m\<bar> \<le> 2 ^ 53 - 1" by simp
  then have "real_of_int \<bar>m\<bar> \<le> real_of_int (2 ^ 53 - 1)" by (rule of_int_le_iff[THEN iffD2])
  then have "\<bar>real_of_int m\<bar> \<le> 2 ^ 53 - 1" by simp
  moreover have "(2::real) powi e \<le> 2 powi 971"
    using e by (intro power_int_increasing) simp_all
  ultimately have "\<bar>real_of_int m\<bar> * 2 powi e \<le> (2 ^ 53 - 1) * 2 powi 971"
    by (intro mult_mono) simp_all
  then show ?thesis by (simp add: x abs_mult kDoubleMax_powi)
qed

lemma round_double_exact [simp]:
  assumes "is_double x"
  shows "round_double x = Finite x"
proof (cases "x = 0")
  case True
  then show ?thesis by (simp add: round_double_def)
next
  case False
  from assms obtain m e :: int where m: "\<bar>m\<bar> < 2 ^ 53" and e: "- 1074 \<le> e" "e \<le> 971"
    and x: "x = of_int m * 2 powi e" by (auto simp: is_double_def)
  have ax: "\<bar>x\<bar> = of_int \<bar>m\<bar> * 2 powi e" by (simp add: x abs_mult)
  have pos: "0 < \<bar>x\<bar>" using False by simp
  from m have "real_of_int \<bar>m\<bar> < real_of_int (2 ^ 53)" by (rule of_int_less_iff[THEN iffD2])
  then have "of_int \<bar>m\<bar> < (2::real) ^ 53" by simp
  then have "\<bar>x\<bar> < 2 ^ 53 * 2 powi e"
    unfolding ax by (intro mult_strict_right_mono) simp_all
  also have "\<dots> = 2 powi (e + 53)" by (simp add: power_int_add)
  finally have up: "\<bar>x\<bar> < 2 powi (e + 53)" .
  have lg: "\<lfloor>log 2 \<bar>x\<bar>\<rfloor> < e + 53"
  proof (rule ccontr)
    assume "\<not> \<lfloor>log 2 \<bar>x\<bar>\<rfloor> < e + 53"
    then have "(2::real) powi (e + 53) \<le> 2 powi \<lfloor>log 2 \<bar>x\<bar>\<rfloor>"
      by (intro power_int_increasing) simp_all
    with floor_log2_bounds[OF pos] up show False by simp
  qed
  define u where "u = ulp_exponent x"
  from e lg have le: "u \<le> e"
    by (simp add: u_def ulp_exponent_def binary_exponent_log[OF pos])
  define d where "d = nat (e - u)"
  have ed: "e = u + int d" using le by (simp add: d_def)
  have pw: "(2::real) powi e = 2 powi u * 2 ^ d"
    by (subst ed) (simp add: power_int_add)
  have "x / 2 powi u = of_int m * 2 ^ d"
    unfolding x pw by simp
  also have "\<dots> = of_int (m * 2 ^ d)" by simp
  finally have "round_to_even (x / 2 powi u) = m * 2 ^ d"
    by (simp only: round_to_even_of_int)
  then have "of_int (round_to_even (x / 2 powi u)) * 2 powi u = x"
    unfolding x pw by simp
  then have r: "of_int (round_to_even (x / 2 powi ulp_exponent x)) * 2 powi ulp_exponent x = x"
    by (simp add: u_def)
  from is_double_bound[OF assms] have "x \<le> kDoubleMax" "- kDoubleMax \<le> x" by auto
  with False r show ?thesis by (simp add: round_double_def)
qed

lemma round_double_eval:
  assumes "0 < x" "2 powi k \<le> x" "x < 2 powi (k + 1)" "- 1022 \<le> k"
    and "round_to_even (x / 2 powi (k - 52)) = n"
    and "of_int n * 2 powi (k - 52) \<le> kDoubleMax"
  shows "round_double x = Finite (of_int n * 2 powi (k - 52))"
proof -
  from floor_log2_eq[OF assms(1-3)] assms(1,4) have "ulp_exponent x = k - 52"
    by (simp add: ulp_exponent_def binary_exponent_log)
  moreover have "0 \<le> real_of_int n * 2 powi (k - 52)"
  proof -
    have "0 \<le> x / 2 powi (k - 52)" using assms(1) by simp
    then have "0 \<le> round_to_even (x / 2 powi (k - 52))"
      by (auto simp: round_to_even_def Let_def)
    with assms(5) show ?thesis by simp
  qed
  moreover have "0 < kDoubleMax" by (simp add: kDoubleMax_def)
  ultimately show ?thesis using assms(1,5,6) by (simp add: round_double_def)
qed

lemma is_double_of_int:
  "\<bar>m\<bar> < 2 ^ 53 \<Longrightarrow> - 1074 \<le> e \<Longrightarrow> e \<le> 971 \<Longrightarrow> is_double (of_int m * 2 powi e)"
  by (auto simp: is_double_def)

lemma is_double_of_nat: "n < 2 ^ 53 \<Longrightarrow> is_double (of_nat n)"
  using is_double_of_int[of "int n" 0] by simp

lemma is_double_0 [simp]: "is_double 0"
  using is_double_of_nat[of 0] by simp

lemma is_double_1 [simp]: "is_double 1"
  using is_double_of_nat[of 1] by simp

lemma is_double_numeral [simp]: "numeral w < (2::nat) ^ 53 \<Longrightarrow> is_double (numeral w)"
  using is_double_of_nat[of "numeral w"] by simp

lemma is_double_kDoubleMax [simp]: "is_double kDoubleMax"
  using is_double_of_int[of "2 ^ 53 - 1" 971] by (simp add: kDoubleMax_def)

lemma double_add_exact: "is_double (a + b) \<Longrightarrow> double_add (Finite a) b = Finite (a + b)"
  by simp

section \<open>Node insertion and its rollback\<close>

text \<open>
  Claim C3: whatever \<open>addEdges\<close> does, a failed \<open>addNode\<close> leaves node count, node
  properties and the whole adjacency structure as before the call, the edges that the
  hook inserted included. The code removes the last row and the property of the new
  index, nothing else. Here the hook adds \<open>0 \<rightarrow> 2\<close> with \<open>addEdge\<close> before it fails:
  \<open>addNode\<close> returns false, the graph has its two nodes and their properties again, and
  row 0 keeps the entry for the node that is gone, with its edge property: \<open>edgeExists\<close>
  reports an edge to the index 2, which is no node.
\<close>

theorem addNode_rollback_leaves_edge:
  "\<exists>g'. addNode failing_hook one_edge_graph ''c'' = Some (False, g')
     \<and> graph one_edge_graph = [[(1, 1)], []]
     \<and> graph g' = [[(1, 1), (2, 5)], []]
     \<and> graph g' \<noteq> graph one_edge_graph
     \<and> node_properties g' = node_properties one_edge_graph
     \<and> \<not> edgeExists one_edge_graph (0, 2)
     \<and> edgeExists g' (0, 2) \<and> edgePropertyExists g' (0, 2) \<and> \<not> nodeExists g' 2"
proof -
  define g' where "g' = snd (the (addNode failing_hook one_edge_graph ''c''))"
  have 1: "addNode failing_hook one_edge_graph ''c'' = Some (False, g')"
    by (simp add: addNode_def failing_hook_def addEdge_def one_edge_graph_def nodeExists_def
        map_insert_def Let_def g'_def)
  have g: "graph g' = [[(1, 1), (2, 5)], []]"
    by (simp add: addNode_def failing_hook_def addEdge_def one_edge_graph_def nodeExists_def
        map_insert_def Let_def g'_def)
  have 2: "graph one_edge_graph = [[(1, 1)], []]"
    "node_properties g' = node_properties one_edge_graph"
    by (simp_all add: addNode_def failing_hook_def addEdge_def one_edge_graph_def
        nodeExists_def map_insert_def Let_def g'_def)
  have 3: "\<not> edgeExists one_edge_graph (0, 2)" "edgeExists g' (0, 2)" "\<not> nodeExists g' 2"
    by (simp_all add: g edgeExists_def nodeExists_def map_count_def one_edge_graph_def)
  have ep: "edgePropertyExists g' (0, 2)"
    by (simp add: addNode_def failing_hook_def addEdge_def one_edge_graph_def nodeExists_def
        map_insert_def Let_def g'_def edgePropertyExists_def)
  from 1 g 2 3 ep show ?thesis by (intro exI[of _ g']) simp
qed

text \<open>
  What the entry left behind does to the next search: \<open>solveDijkstra\<close> from node 0 to
  node 1 returned the path \<open>[0, 1]\<close> before the failed call; after it the search opens the
  index 2, reads its cost as the default 0, makes it \<open>current\<close> and reads \<open>graph_[2]\<close>
  outside the vector, so it has no defined result.
\<close>

lemma search_after_failed_addNode:
  assumes "addNode failing_hook one_edge_graph ''c'' = Some (False, g')"
  shows "solveDijkstra one_edge_graph 0 1 [] = Some (True, [0, 1])
       \<and> solveDijkstra g' 0 1 [] = None"
proof -
  from assms have g: "graph g' = [[(1, 1), (2, 5)], []]"
    by (auto simp: addNode_def failing_hook_def addEdge_def one_edge_graph_def nodeExists_def
        map_insert_def Let_def)
  have 1: "solveDijkstra one_edge_graph 0 1 [] = Some (True, [0, 1])"
    by (simp add: solveDijkstra_def one_edge_graph_def dijkstra_loop.simps nodeExists_def
        set_erase_def reconstructSolution_def reconstruct_loop.simps Let_def kDoubleMax_def)
  have 2: "solveDijkstra g' 0 1 [] = None"
    by (simp add: solveDijkstra_def g dijkstra_loop.simps nodeExists_def set_erase_def
        Let_def kDoubleMax_def)
  from 1 2 show ?thesis by simp
qed

text \<open>
  And the next node that is added gets the index 2: it inherits the edge \<open>0 \<rightarrow> 2\<close> of cost
  5 with its property, which nobody added for it.
\<close>

lemma node_after_failed_addNode:
  assumes "addNode failing_hook one_edge_graph ''c'' = Some (False, g')"
  shows "\<exists>g''. addNode accepting_hook g' ''d'' = Some (True, g'')
           \<and> nodeExists g'' 2 \<and> getNodeProperty g'' 2 = Some ''d''
           \<and> getEdgeCost g'' (0, 2) = (True, 5) \<and> getEdgeProperty g'' (0, 2) = Some ''e''"
proof -
  from assms have g: "graph g' = [[(1, 1), (2, 5)], []]"
    and e: "edge_properties g' (0, 2) = Some ''e''"
    and np: "node_properties g' (Suc (Suc 0)) = None"
    by (auto simp: addNode_def failing_hook_def addEdge_def one_edge_graph_def nodeExists_def
        map_insert_def Let_def)
  show ?thesis
    by (simp add: addNode_def accepting_hook_def Let_def g e np map_insert_def nodeExists_def
        getNodeProperty_def nodePropertyExists_def getEdgeCost_def edgeExists_def map_count_def
        map_at_def getEdgeProperty_def edgePropertyExists_def)
qed

text \<open>
  For an \<open>addEdges\<close> that fails having changed neither the number of rows, nor a row of an
  older node, nor the node properties, on a new index that had no property before the
  call, the rollback is complete: the edges that the hook gave the new node are gone with
  its row.
\<close>

lemma addNode_rollback_own_row:
  fixes g :: "('n, 'e) GraphBase"
  defines "idx \<equiv> length (graph g)"
  assumes hook: "addEdges (g\<lparr>graph := graph g @ [[]],
                     node_properties := (node_properties g)(idx \<mapsto> node_property)\<rparr>) =
                   (False, g3)"
    and count: "length (graph g3) = length (graph g) + 1"
    and older: "butlast (graph g3) = graph g"
    and props: "node_properties g3 = (node_properties g)(idx \<mapsto> node_property)"
    and fresh: "node_properties g idx = None"
  shows "\<exists>g'. addNode addEdges g node_property = Some (False, g')
           \<and> length (graph g') = length (graph g)
           \<and> node_properties g' = node_properties g
           \<and> graph g' = graph g"
proof -
  have "graph g3 \<noteq> []" using count by auto
  then show ?thesis
    using hook older props fresh
    by (auto simp: addNode_def Let_def map_insert_def idx_def)
qed

lemma addNode_rollback_own_row_example:
  "\<exists>g'. addNode failing_out_hook one_edge_graph ''c'' = Some (False, g')
       \<and> length (graph g') = length (graph one_edge_graph)
       \<and> node_properties g' = node_properties one_edge_graph
       \<and> graph g' = graph one_edge_graph"
proof -
  let ?g2 = "one_edge_graph\<lparr>graph := graph one_edge_graph @ [[]],
      node_properties :=
        (node_properties one_edge_graph)(length (graph one_edge_graph) \<mapsto> ''c'')\<rparr>"
  have h: "failing_out_hook ?g2 = (False, snd (failing_out_hook ?g2))"
    by (simp add: failing_out_hook_def)
  have c: "length (graph (snd (failing_out_hook ?g2))) = length (graph one_edge_graph) + 1"
    and o: "butlast (graph (snd (failing_out_hook ?g2))) = graph one_edge_graph"
    and p: "node_properties (snd (failing_out_hook ?g2)) =
        (node_properties one_edge_graph)(length (graph one_edge_graph) \<mapsto> ''c'')"
    and f: "node_properties one_edge_graph (length (graph one_edge_graph)) = None"
    by (simp_all add: one_edge_graph_def failing_out_hook_def addEdge_def nodeExists_def)
  show ?thesis
    by (rule addNode_rollback_own_row[where addEdges = failing_out_hook and g = one_edge_graph
        and node_property = "''c''", OF h c o p f])
qed

section \<open>Edge insertion\<close>

text \<open>
  What \<open>addEdge\<close> does: it returns true exactly when the cost is not negative and the
  source node exists; when it returns false the graph is unchanged; when it returns true
  the edge exists with the new cost, and its property is the new one if the edge had no
  property, the old one otherwise.
\<close>

lemma map_of_map_assign: "map_of (map_assign k v m) = (map_of m)(k \<mapsto> v)"
  by (induction k v m rule: map_assign.induct) (auto simp: fun_upd_twist)

lemma fst_set_map_assign: "fst ` set (map_assign k v m) = insert k (fst ` set m)"
  by (induction k v m rule: map_assign.induct) auto

lemma addEdge_returns:
  "fst (addEdge g edge_id edge_property cost) \<longleftrightarrow> cost \<ge> 0 \<and> nodeExists g (fst edge_id)"
  by (simp add: addEdge_def)

lemma addEdge_failure_frame:
  "\<not> fst (addEdge g edge_id edge_property cost) \<Longrightarrow>
   snd (addEdge g edge_id edge_property cost) = g"
  by (auto simp: addEdge_def split: if_splits)

lemma addEdge_stores_cost:
  assumes "fst (addEdge g edge_id edge_property cost)"
  shows "getEdgeCost (snd (addEdge g edge_id edge_property cost)) edge_id = (True, cost)"
  using assms
  by (simp add: addEdge_def getEdgeCost_def edgeExists_def nodeExists_def map_count_def
      map_at_def map_of_map_assign fst_set_map_assign split: if_splits)

lemma addEdge_stores_property:
  assumes "fst (addEdge g edge_id edge_property cost)"
  shows "getEdgeProperty (snd (addEdge g edge_id edge_property cost)) edge_id =
         (case edge_properties g edge_id of None \<Rightarrow> Some edge_property | Some old \<Rightarrow> Some old)"
  using assms
  by (simp add: addEdge_def getEdgeProperty_def edgePropertyExists_def map_insert_def
      split: if_splits option.splits)

text \<open>
  Claim C4: \<open>addEdge\<close> on an existing edge replaces the stored cost and the stored edge
  property. The code writes the cost with \<open>operator[]\<close>, which replaces, and the property
  with \<open>std::map::insert\<close>, which keeps the element that is there. On \<open>one_edge_graph\<close>,
  adding \<open>0 \<rightarrow> 1\<close> again with cost 2 and property \<open>new\<close> succeeds and stores the cost 2,
  and the edge still has the property \<open>old\<close>.
\<close>

theorem addEdge_keeps_old_property:
  "fst (addEdge one_edge_graph (0, 1) ''new'' 2) = True
   \<and> getEdgeProperty one_edge_graph (0, 1) = Some ''old''
   \<and> getEdgeCost (snd (addEdge one_edge_graph (0, 1) ''new'' 2)) (0, 1) = (True, 2)
   \<and> getEdgeProperty (snd (addEdge one_edge_graph (0, 1) ''new'' 2)) (0, 1) = Some ''old''"
  by (simp add: addEdge_def one_edge_graph_def nodeExists_def map_insert_def getEdgeCost_def
      edgeExists_def map_count_def map_at_def getEdgeProperty_def edgePropertyExists_def)

section \<open>Start and goal markers\<close>

text \<open>
  Claim C5: a failed \<open>addStartNode\<close> (\<open>addGoalNode\<close>) leaves the start (goal) marker as it
  was. The code assigns the marker before it calls \<open>addNode\<close> and does not restore it.
  With the base class's \<open>addEdges\<close>, which always fails, on a graph of two nodes whose
  markers are unset: both calls return false, and the marker is 2 afterwards, an index
  that is no node.
\<close>

theorem failed_addStartNode_moves_marker:
  "addStartNode GraphBase_addEdges one_edge_graph ''s'' =
     Some (False, one_edge_graph\<lparr>start_idx := 2\<rparr>)
   \<and> addGoalNode GraphBase_addEdges one_edge_graph ''s'' =
     Some (False, one_edge_graph\<lparr>goal_idx := 2\<rparr>)
   \<and> start_idx one_edge_graph = kSizeMax
   \<and> goal_idx one_edge_graph = kSizeMax
   \<and> kSizeMax \<noteq> 2
   \<and> \<not> nodeExists (one_edge_graph\<lparr>start_idx := 2\<rparr>) 2
   \<and> \<not> nodeExists (one_edge_graph\<lparr>goal_idx := 2\<rparr>) 2"
  by (simp add: addStartNode_def addGoalNode_def addNode_def GraphBase_addEdges_def
      one_edge_graph_def nodeExists_def map_insert_def Let_def kSizeMax_def fun_upd_twist)

section \<open>Adjacency matrix\<close>

lemma those_map_Some:
  "(\<forall>x \<in> set xs. f x \<noteq> None) \<Longrightarrow> those (map f xs) = Some (map (\<lambda>x. the (f x)) xs)"
  by (induction xs) auto

lemma sint_kIntMax: "sint kIntMax = 2 ^ 31 - 1"
  by (simp add: kIntMax_def)

lemma doubleToMilliInt_in_range:
  assumes "- (2 ^ 31) \<le> round (d * 1000)" and "round (d * 1000) \<le> 2 ^ 31 - 1"
  shows "\<exists>x. doubleToMilliInt d = Some x \<and> sint x = round (d * 1000)"
  using assms
  by (simp add: doubleToMilliInt_def Let_def sint_sbintrunc' signed_take_bit_int_eq_self)

lemma edgeExists_map_of:
  "edgeExists g (i, j) \<longleftrightarrow> i < length (graph g) \<and> map_of (graph g ! i) j \<noteq> None"
  by (auto simp: edgeExists_def nodeExists_def map_count_def map_of_eq_None_iff)

text \<open>
  Claim C6 as the specification has it: for every graph, cell \<open>(i, j)\<close> of the matrix is
  the cost of the edge times 1000, rounded, whenever the edge exists. \<open>addEdge\<close> accepts
  any cost that is not negative, the cells are 32-bit \<open>int\<close>s. On \<open>dear_edge_graph\<close> the
  edge \<open>0 \<rightarrow> 1\<close> exists with the cost 3000000 (and \<open>addEdge\<close> stores that cost); times 1000
  that is 3000000000, which no \<open>int\<close> equals, and the call has no defined result.
\<close>

theorem getAdjacencyMatrix_counterexample:
  "edgeExists dear_edge_graph (0, 1)
   \<and> getEdgeCost dear_edge_graph (0, 1) = (True, 3000000)
   \<and> getEdgeCost (snd (addEdge one_edge_graph (0, 1) ''e'' 3000000)) (0, 1) = (True, 3000000)
   \<and> round (3000000 * 1000 :: real) = 3000000000
   \<and> (\<forall>cell :: int32. sint cell \<noteq> round (3000000 * 1000 :: real))
   \<and> getAdjacencyMatrix dear_edge_graph = None"
proof -
  have 1: "edgeExists dear_edge_graph (0, 1)"
    "getEdgeCost dear_edge_graph (0, 1) = (True, 3000000)"
    by (simp_all add: dear_edge_graph_def edgeExists_def nodeExists_def map_count_def
        getEdgeCost_def map_at_def)
  have 2: "getEdgeCost (snd (addEdge one_edge_graph (0, 1) ''e'' 3000000)) (0, 1) =
      (True, 3000000)"
    by (simp add: addEdge_def one_edge_graph_def edgeExists_def nodeExists_def map_count_def
        getEdgeCost_def map_at_def)
  have 3: "round (3000000 * 1000 :: real) = 3000000000" by simp
  have 4: "sint cell \<noteq> round (3000000 * 1000 :: real)" for cell :: int32
    using sint_lt[of cell] by simp
  have 5: "getAdjacencyMatrix dear_edge_graph = None"
    by (simp add: getAdjacencyMatrix_def dear_edge_graph_def edgeExists_def nodeExists_def
        map_count_def getEdgeCost_def map_at_def doubleToMilliInt_def upt_rec)
  from 1 2 3 4 5 show ?thesis by blast
qed

text \<open>
  Claim C6, amended: for a graph of \<open>N\<close> nodes in which the cost of every edge between two
  nodes, times 1000 and rounded, lies in the range of \<open>int\<close> (\<open>costs_fit_int\<close>),
  \<open>getAdjacencyMatrix\<close> returns
  \<open>N\<close> rows of \<open>N\<close> cells; cell \<open>(i, j)\<close> is the cost stored in row \<open>i\<close> for \<open>j\<close>, times 1000
  and rounded, when the row has an entry for \<open>j\<close> (that is, when the edge exists), and
  the largest \<open>int\<close> when it has none.
\<close>

theorem getAdjacencyMatrix_cells:
  assumes "costs_fit_int g"
  shows "\<exists>m. getAdjacencyMatrix g = Some m
           \<and> length m = length (graph g)
           \<and> (\<forall>i < length (graph g). length (m ! i) = length (graph g))
           \<and> (\<forall>i < length (graph g). \<forall>j < length (graph g).
                  (edgeExists g (i, j) \<longleftrightarrow> map_of (graph g ! i) j \<noteq> None)
                  \<and> (\<forall>c. map_of (graph g ! i) j = Some c \<longrightarrow> sint (m ! i ! j) = round (c * 1000))
                  \<and> (map_of (graph g ! i) j = None \<longrightarrow> sint (m ! i ! j) = 2 ^ 31 - 1))"
proof -
  let ?N = "length (graph g)"
  let ?cell = "\<lambda>i j. let edge = (i, j)
      in if edgeExists g edge
         then (case getEdgeCost g edge of
                 (True, cost) \<Rightarrow> doubleToMilliInt cost
               | (False, cost) \<Rightarrow> Some kIntMax)
         else Some kIntMax"
  have cell: "(\<forall>c. map_of (graph g ! i) j = Some c \<longrightarrow>
                 (\<exists>x. ?cell i j = Some x \<and> sint x = round (c * 1000)))
            \<and> (map_of (graph g ! i) j = None \<longrightarrow> ?cell i j = Some kIntMax)"
    if "i < ?N" "j < ?N" for i j
  proof (cases "map_of (graph g ! i) j")
    case None
    with that show ?thesis by (simp add: edgeExists_map_of)
  next
    case (Some c)
    with assms that have "- (2 ^ 31) \<le> round (c * 1000)" "round (c * 1000) \<le> 2 ^ 31 - 1"
      by (auto simp: costs_fit_int_def)
    from doubleToMilliInt_in_range[OF this] Some that show ?thesis
      by (simp add: edgeExists_map_of getEdgeCost_def map_at_def)
  qed
  have some: "?cell i j \<noteq> None" if "i < ?N" "j < ?N" for i j
    using cell[OF that] by (cases "map_of (graph g ! i) j") auto
  have row: "those (map (?cell i) [0..<?N]) = Some (map (\<lambda>j. the (?cell i j)) [0..<?N])"
    if "i < ?N" for i
    using some[OF that] by (intro those_map_Some) simp
  have "those (map (\<lambda>i. those (map (?cell i) [0..<?N])) [0..<?N]) =
      Some (map (\<lambda>i. the (those (map (?cell i) [0..<?N]))) [0..<?N])"
    using row by (intro those_map_Some) simp
  then have m: "getAdjacencyMatrix g =
      Some (map (\<lambda>i. the (those (map (?cell i) [0..<?N]))) [0..<?N])"
    by (simp add: getAdjacencyMatrix_def)
  let ?m = "map (\<lambda>i. the (those (map (?cell i) [0..<?N]))) [0..<?N]"
  have at: "?m ! i ! j = the (?cell i j)" if "i < ?N" "j < ?N" for i j
    using that row[OF that(1)] by simp
  have len: "length (?m ! i) = ?N" if "i < ?N" for i
    using that row[OF that] by simp
  have cells: "(edgeExists g (i, j) \<longleftrightarrow> map_of (graph g ! i) j \<noteq> None)
      \<and> (\<forall>c. map_of (graph g ! i) j = Some c \<longrightarrow> sint (?m ! i ! j) = round (c * 1000))
      \<and> (map_of (graph g ! i) j = None \<longrightarrow> sint (?m ! i ! j) = 2 ^ 31 - 1)"
    if "i < ?N" "j < ?N" for i j
  proof (intro conjI allI impI)
    show "edgeExists g (i, j) \<longleftrightarrow> map_of (graph g ! i) j \<noteq> None"
      using that by (simp add: edgeExists_map_of)
  next
    fix c assume "map_of (graph g ! i) j = Some c"
    with cell[OF that] obtain x where "?cell i j = Some x" "sint x = round (c * 1000)"
      by blast
    then show "sint (?m ! i ! j) = round (c * 1000)"
      unfolding at[OF that] by simp
  next
    assume "map_of (graph g ! i) j = None"
    with cell[OF that] have "?cell i j = Some kIntMax" by blast
    then show "sint (?m ! i ! j) = 2 ^ 31 - 1"
      unfolding at[OF that] by (simp add: sint_kIntMax)
  qed
  from m len cells show ?thesis by (intro exI[of _ ?m]) simp
qed

theorem getAdjacencyMatrix_cells_witness:
  "costs_fit_int scenario_graph
   \<and> (\<exists>m. getAdjacencyMatrix scenario_graph = Some m
         \<and> length m = 4 \<and> length (m ! 0) = 4
         \<and> map_of (graph scenario_graph ! 0) 2 = Some 3 \<and> sint (m ! 0 ! 2) = 3000
         \<and> map_of (graph scenario_graph ! 2) 0 = None \<and> sint (m ! 2 ! 0) = 2 ^ 31 - 1)"
proof -
  have rows: "graph scenario_graph = [[(1, 1), (2, 3)], [(2, 1)], [(3, 1)], []]"
    by (simp add: scenario_graph_def)
  have range: "costs_fit_int scenario_graph"
    unfolding costs_fit_int_def
  proof (intro allI impI)
    fix i j c assume "i < length (graph scenario_graph)"
      and "map_of (graph scenario_graph ! i) j = Some c"
    then have "c = 1 \<or> c = 3"
      unfolding rows by (auto simp: less_Suc_eq nth_Cons' split: if_splits)
    then show "- (2 ^ 31) \<le> round (c * 1000) \<and> round (c * 1000) \<le> 2 ^ 31 - 1" by auto
  qed
  from getAdjacencyMatrix_cells[OF range] obtain m where
    m: "getAdjacencyMatrix scenario_graph = Some m" "length m = length (graph scenario_graph)"
      "\<forall>i < length (graph scenario_graph). length (m ! i) = length (graph scenario_graph)"
      "\<forall>i < length (graph scenario_graph). \<forall>j < length (graph scenario_graph).
          (edgeExists scenario_graph (i, j) \<longleftrightarrow> map_of (graph scenario_graph ! i) j \<noteq> None)
          \<and> (\<forall>c. map_of (graph scenario_graph ! i) j = Some c \<longrightarrow>
                 sint (m ! i ! j) = round (c * 1000))
          \<and> (map_of (graph scenario_graph ! i) j = None \<longrightarrow> sint (m ! i ! j) = 2 ^ 31 - 1)"
    by blast
  have e02: "map_of (graph scenario_graph ! 0) 2 = Some 3"
    and e20: "map_of (graph scenario_graph ! 2) 0 = None"
    by (simp_all add: rows)
  from m(4) e02 have "sint (m ! 0 ! 2) = round (3 * 1000 :: real)"
    by (simp add: rows)
  then have c02: "sint (m ! 0 ! 2) = 3000" by simp
  from m(4) e20 have c20: "sint (m ! 2 ! 0) = 2 ^ 31 - 1"
    by (simp add: rows)
  from m(2,3) have "length m = 4" "length (m ! 0) = 4" by (simp_all add: rows)
  with m(1) e02 e20 c02 c20 range show ?thesis by blast
qed

section \<open>Clearing the edges\<close>

text \<open>
  Claim C7: after \<open>clearEdges\<close>, \<open>nodeExists\<close> and \<open>nodePropertyExists\<close> answer as before
  for every index, both markers are unchanged, and \<open>edgeExists\<close> is false for every edge
  identifier.
\<close>

theorem clearEdges_frame:
  "nodeExists (clearEdges g) i = nodeExists g i
   \<and> nodePropertyExists (clearEdges g) i = nodePropertyExists g i
   \<and> start_idx (clearEdges g) = start_idx g
   \<and> goal_idx (clearEdges g) = goal_idx g
   \<and> \<not> edgeExists (clearEdges g) e"
  by (simp add: clearEdges_def nodeExists_def nodePropertyExists_def edgeExists_def
      map_count_def)

section \<open>Stored costs are never negative\<close>

lemma set_map_assign: "set (map_assign k v m) \<subseteq> insert (k, v) (set m)"
  by (induction k v m rule: map_assign.induct) auto

lemma addEdge_costs_nonneg:
  assumes "costs_nonneg g"
  shows "costs_nonneg (snd (addEdge g edge_id edge_property cost))"
proof (cases "cost \<ge> 0 \<and> nodeExists g (fst edge_id)")
  case False
  with assms show ?thesis by (auto simp: addEdge_def)
next
  case True
  have "0 \<le> snd entry"
    if "row \<in> set ((graph g)[fst edge_id :=
                      map_assign (snd edge_id) cost (graph g ! fst edge_id)])"
      and "entry \<in> set row" for row entry
  proof -
    from that(1) consider "row \<in> set (graph g)"
      | "row = map_assign (snd edge_id) cost (graph g ! fst edge_id)"
      using set_update_subset_insert by fastforce
    then show ?thesis
    proof cases
      case 1
      with assms that(2) show ?thesis by (auto simp: costs_nonneg_def)
    next
      case 2
      with that(2) set_map_assign
      have "entry = (snd edge_id, cost) \<or> entry \<in> set (graph g ! fst edge_id)"
        by fastforce
      with True assms show ?thesis
        by (auto simp: costs_nonneg_def nodeExists_def)
    qed
  qed
  with True show ?thesis by (simp add: addEdge_def costs_nonneg_def)
qed

lemma addNode_costs_nonneg:
  assumes "costs_nonneg g"
    and "\<And>t. costs_nonneg t \<Longrightarrow> costs_nonneg (snd (addEdges t))"
    and "addNode addEdges g node_property = Some (ok, g')"
  shows "costs_nonneg g'"
proof -
  let ?g2 = "g\<lparr>graph := graph g @ [[]],
      node_properties := map_insert (length (graph g)) node_property (node_properties g)\<rparr>"
  have "costs_nonneg ?g2" using assms(1) by (auto simp: costs_nonneg_def)
  from assms(2)[OF this] have g3: "costs_nonneg (snd (addEdges ?g2))" .
  obtain b g3 where hook: "addEdges ?g2 = (b, g3)" by (cases "addEdges ?g2")
  with g3 have "costs_nonneg g3" by simp
  moreover have "costs_nonneg (g3\<lparr>graph := butlast (graph g3), node_properties := np\<rparr>)"
    for np
    using \<open>costs_nonneg g3\<close> by (auto simp: costs_nonneg_def dest: in_set_butlastD)
  ultimately show ?thesis
    using assms(3) hook by (auto simp: addNode_def Let_def split: if_splits bool.splits)
qed

text \<open>
  Claim C8: every operation of the graph keeps all stored costs non-negative, where
  \<open>addNode\<close>, \<open>addStartNode\<close> and \<open>addGoalNode\<close> run an \<open>addEdges\<close> that keeps them so itself
  (as one that adds its edges with \<open>addEdge\<close> does); and \<open>addEdge\<close> with a negative cost
  returns false and leaves the graph as it is.
\<close>

theorem nonnegative_costs_invariant:
  fixes g :: "('n, 'e) GraphBase"
  assumes inv: "costs_nonneg g"
    and hook: "\<And>t :: ('n, 'e) GraphBase. costs_nonneg t \<Longrightarrow> costs_nonneg (snd (addEdges t))"
  shows "costs_nonneg (snd (addEdge g edge_id edge_property cost))
    \<and> (cost < 0 \<longrightarrow> addEdge g edge_id edge_property cost = (False, g))
    \<and> (addNode addEdges g node_property = Some (ok, g') \<longrightarrow> costs_nonneg g')
    \<and> (addStartNode addEdges g node_property = Some (ok, g') \<longrightarrow> costs_nonneg g')
    \<and> (addGoalNode addEdges g node_property = Some (ok, g') \<longrightarrow> costs_nonneg g')
    \<and> costs_nonneg (clear g)
    \<and> costs_nonneg (clearEdges g)
    \<and> costs_nonneg (snd (GraphBase_create g))"
proof -
  have 1: "costs_nonneg (snd (addEdge g edge_id edge_property cost))"
    by (rule addEdge_costs_nonneg[OF inv])
  have 2: "cost < 0 \<longrightarrow> addEdge g edge_id edge_property cost = (False, g)"
    by (simp add: addEdge_def)
  have 3: "addNode addEdges g node_property = Some (ok, g') \<longrightarrow> costs_nonneg g'"
    using addNode_costs_nonneg[where addEdges = addEdges, OF inv hook] by blast
  have s: "costs_nonneg (g\<lparr>start_idx := k\<rparr>)" "costs_nonneg (g\<lparr>goal_idx := k\<rparr>)" for k
    using inv by (simp_all add: costs_nonneg_def)
  have 4: "addStartNode addEdges g node_property = Some (ok, g') \<longrightarrow> costs_nonneg g'"
    using addNode_costs_nonneg[where addEdges = addEdges, OF s(1) hook]
    by (auto simp: addStartNode_def Let_def split: option.splits prod.splits bool.splits)
  have 5: "addGoalNode addEdges g node_property = Some (ok, g') \<longrightarrow> costs_nonneg g'"
    using addNode_costs_nonneg[where addEdges = addEdges, OF s(2) hook]
    by (auto simp: addGoalNode_def Let_def split: option.splits prod.splits bool.splits)
  have 6: "costs_nonneg (clear g)" by (simp add: clear_def costs_nonneg_def)
  have 7: "costs_nonneg (clearEdges g)" by (simp add: clearEdges_def costs_nonneg_def)
  have 8: "costs_nonneg (snd (GraphBase_create g))"
    using inv by (simp add: GraphBase_create_def)
  from 1 2 3 4 5 6 7 8 show ?thesis by blast
qed

theorem nonnegative_costs_invariant_witness:
  "costs_nonneg one_edge_graph
   \<and> addEdge one_edge_graph (0, 1) ''x'' (-1) = (False, one_edge_graph)
   \<and> costs_nonneg (snd (addEdge one_edge_graph (0, 1) ''x'' (-1)))
   \<and> (\<exists>g'. addNode edge_hook one_edge_graph ''c'' = Some (True, g') \<and> costs_nonneg g')"
proof -
  have inv: "costs_nonneg one_edge_graph"
    by (simp add: costs_nonneg_def one_edge_graph_def)
  have hook: "costs_nonneg (snd (edge_hook t))" if "costs_nonneg t" for t
    using that by (simp add: edge_hook_def addEdge_costs_nonneg)
  have "\<exists>g'. addNode edge_hook one_edge_graph ''c'' = Some (True, g')"
    by (simp add: addNode_def edge_hook_def addEdge_def one_edge_graph_def nodeExists_def
        Let_def)
  then obtain g' where g': "addNode edge_hook one_edge_graph ''c'' = Some (True, g')" ..
  from nonnegative_costs_invariant[where addEdges = edge_hook and g = one_edge_graph
      and edge_id = "(0, 1)" and edge_property = "''x''" and cost = "-1"
      and node_property = "''c''" and ok = True and g' = g', OF inv hook] inv g'
  show ?thesis by simp
qed

section \<open>Searching with unset markers\<close>

text \<open>
  Claim C9: when both markers hold the largest \<open>size_t\<close>, the searches between the
  markers return false: \<open>nodeExists\<close> rejects the sentinel, since the number of nodes is a
  \<open>size_t\<close> itself and so not larger. The result is a defined one for any adjacency
  rows, none of which is read; \<open>solveDijkstra\<close> hands back the cleared solution,
  \<open>solveAStar\<close> the solution it was given.
\<close>

theorem unset_markers_search_fails:
  assumes "start_idx g = kSizeMax" and "goal_idx g = kSizeMax"
    and "length (graph g) \<le> kSizeMax"
  shows "solveDijkstra_markers g solution = Some (False, [])
       \<and> solveAStar_markers calculateHeuristic g solution = Some (False, solution)"
  using assms
  by (simp add: solveDijkstra_markers_def solveAStar_markers_def solveDijkstra_def
      solveAStar_def nodeExists_def)

theorem unset_markers_search_fails_witness:
  "start_idx one_edge_graph = kSizeMax \<and> goal_idx one_edge_graph = kSizeMax
   \<and> length (graph one_edge_graph) \<le> kSizeMax
   \<and> solveDijkstra_markers one_edge_graph [7] = Some (False, [])
   \<and> solveAStar_markers zero_heuristic one_edge_graph [7] = Some (False, [7])"
  using unset_markers_search_fails[of one_edge_graph "[7]" zero_heuristic]
  by (simp add: one_edge_graph_def kSizeMax_def)

section \<open>The solution after a failed search\<close>

lemma dijkstra_loop_failure:
  "dijkstra_loop adjacency goal open_set closed_set came_from cost solution = Some (False, s')
   \<Longrightarrow> s' = solution"
proof (induction adjacency goal open_set closed_set came_from cost solution
    rule: dijkstra_loop.induct)
  case (1 adjacency goal open_set closed_set came_from cost solution)
  show ?case
  proof (cases open_set)
    case Nil
    with "1.prems" show ?thesis by (simp add: dijkstra_loop.simps)
  next
    case (Cons first rest)
    with "1.prems" "1.IH" show ?thesis
      by (subst (asm) dijkstra_loop.simps) (auto simp: Let_def split: if_splits prod.splits)
  qed
qed

lemma astar_loop_failure:
  "astar_loop adjacency heuristic goal open_set closed_set came_from cost cwh solution =
     Some (False, s')
   \<Longrightarrow> s' = solution"
proof (induction adjacency heuristic goal open_set closed_set came_from cost cwh solution
    rule: astar_loop.induct)
  case (1 adjacency heuristic goal open_set closed_set came_from cost cwh solution)
  show ?case
  proof (cases open_set)
    case Nil
    with "1.prems" show ?thesis by (simp add: astar_loop.simps)
  next
    case (Cons first rest)
    with "1.prems" "1.IH" show ?thesis
      by (subst (asm) astar_loop.simps)
         (auto simp: Let_def split: if_splits prod.splits option.splits)
  qed
qed

text \<open>
  Claim C10: \<open>solveDijkstra\<close> clears the solution first, so whenever it returns false the
  solution is empty; \<open>solveAStar\<close> writes the solution only when it succeeds, so whenever
  it returns false the solution is the one it was given.
\<close>

theorem failed_search_solution:
  "(solveDijkstra g start goal solution = Some (False, s') \<longrightarrow> s' = [])
   \<and> (solveAStar calculateHeuristic g start goal solution = Some (False, s') \<longrightarrow>
        s' = solution)"
  by (auto simp: solveDijkstra_def solveAStar_def Let_def
      dest: dijkstra_loop_failure astar_loop_failure
      split: if_splits prod.splits option.splits bool.splits)

theorem failed_search_solution_witness:
  "solveDijkstra one_edge_graph 1 0 [7] = Some (False, [])
   \<and> solveAStar zero_heuristic one_edge_graph 1 0 [7] = Some (False, [7])"
proof -
  have d: "solveDijkstra one_edge_graph 1 0 [7] = Some (False, [])"
    by (simp add: solveDijkstra_def one_edge_graph_def nodeExists_def dijkstra_loop.simps
        set_erase_def)
  have a: "solveAStar zero_heuristic one_edge_graph 1 0 [7] = Some (False, [7])"
    by (simp add: solveAStar_def one_edge_graph_def nodeExists_def astar_loop.simps
        set_erase_def zero_heuristic_def)
  from failed_search_solution[of one_edge_graph 1 0 "[7]" "[]" zero_heuristic]
    failed_search_solution[of one_edge_graph 1 0 "[7]" "[7]" zero_heuristic] d a
  show ?thesis by simp
qed

section \<open>Rows stay in key order\<close>

text \<open>\<open>addEdge\<close>, \<open>clear\<close> and \<open>clearEdges\<close> keep every row in strictly increasing key
  order, as the \<open>std::map\<close> they stand for is.\<close>

lemma map_assign_sorted:
  "sorted_wrt (<) (map fst m) \<Longrightarrow> sorted_wrt (<) (map fst (map_assign k v m))"
proof (induction k v m rule: map_assign.induct)
  case (1 k v)
  then show ?case by simp
next
  case (2 k v k' v' m)
  then show ?case
    using fst_set_map_assign[of k v m] by (auto simp: image_iff) 
qed

lemma addEdge_rows_wf:
  assumes "rows_wf g"
  shows "rows_wf (snd (addEdge g edge_id edge_property cost))"
proof (cases "cost \<ge> 0 \<and> nodeExists g (fst edge_id)")
  case False
  with assms show ?thesis by (auto simp: addEdge_def)
next
  case True
  have "sorted_wrt (<) (map fst row)"
    if "row \<in> set ((graph g)[fst edge_id :=
                      map_assign (snd edge_id) cost (graph g ! fst edge_id)])" for row
  proof -
    from that consider "row \<in> set (graph g)"
      | "row = map_assign (snd edge_id) cost (graph g ! fst edge_id)"
      using set_update_subset_insert by fastforce
    then show ?thesis
    proof cases
      case 1
      with assms show ?thesis by (simp add: rows_wf_def)
    next
      case 2
      from True assms have "sorted_wrt (<) (map fst (graph g ! fst edge_id))"
        by (simp add: rows_wf_def nodeExists_def)
      with 2 show ?thesis by (simp add: map_assign_sorted)
    qed
  qed
  with True show ?thesis by (simp add: addEdge_def rows_wf_def)
qed

lemma clear_rows_wf: "rows_wf (clear g)" "rows_wf (clearEdges g)"
  by (simp_all add: clear_def clearEdges_def rows_wf_def)

section \<open>Correctness of the searches\<close>

subsection \<open>Minimum selection, solution reconstruction, paths\<close>

lemmas eval_defs = nodeExists_def edgeExists_def getEdgeCost_def map_count_def map_at_def
  set_erase_def reconstructSolution_def reconstruct_loop.simps Let_def kDoubleMax_def

lemma kDoubleMax_pos: "0 < kDoubleMax"
  by (simp add: kDoubleMax_def)

lemma kDoubleMax_large: "1000 < kDoubleMax"
  by (simp add: kDoubleMax_def)

lemma min_element_from_least:
  "y \<in> insert smallest (set xs) \<Longrightarrow> key (min_element_from key smallest xs) \<le> key y"
proof (induction xs arbitrary: smallest y)
  case Nil
  then show ?case by simp
next
  case (Cons x xs)
  have step: "key (min_element_from key s xs) \<le> key s" for s
    using Cons.IH[of s s] by simp
  show ?case
  proof (cases "key x < key smallest")
    case True
    with Cons.prems Cons.IH[of y x] step[of x] show ?thesis by auto
  next
    case False
    with Cons.prems Cons.IH[of y smallest] step[of smallest] show ?thesis by auto
  qed
qed

lemma tree_path_last: "tree_path cf p v \<Longrightarrow> p \<noteq> [] \<and> last p = v"
  by (induction rule: tree_path.induct) auto

lemma tree_path_cong:
  "tree_path cf p v \<Longrightarrow> (\<forall>x \<in> set p. cf' x = cf x) \<Longrightarrow> tree_path cf' p v"
  by (induction rule: tree_path.induct) (auto intro: tree_path.intros)

lemma tree_path_loop:
  "tree_path cf p v \<Longrightarrow> reconstruct_loop cf v acc = Some (acc @ rev (butlast p))"
proof (induction arbitrary: acc rule: tree_path.induct)
  case (tree_root v)
  then show ?case by (simp add: reconstruct_loop.simps)
next
  case (tree_step v u p)
  from tree_path_last[OF tree_step.hyps(2)] obtain p' where p: "p = p' @ [u]"
    by (metis append_butlast_last_id)
  from tree_step.IH[of "acc @ [u]"] tree_step.hyps(1) show ?case
    by (subst reconstruct_loop.simps) (simp add: p butlast_append)
qed

lemma tree_path_reconstruct:
  assumes "tree_path cf p v"
  shows "reconstructSolution cf v = Some p"
proof -
  from tree_path_last[OF assms] have "butlast p @ [v] = p" by auto
  with tree_path_loop[OF assms, of "[v]"] show ?thesis
    by (simp add: reconstructSolution_def)
qed

lemma walk_hd: "walk adj s p a \<Longrightarrow> p \<noteq> [] \<and> hd p = s"
  by (induction rule: walk.induct) auto

lemma map_count_pos: "map_count k m > 0 \<longleftrightarrow> k \<in> fst ` set m"
  by (simp add: map_count_def)

lemma has_edge_iff:
  assumes "rows_wf g"
  shows "has_edge (graph g) u v c \<longleftrightarrow> edgeExists g (u, v) \<and> snd (getEdgeCost g (u, v)) = c"
proof (cases "u < length (graph g)")
  case False
  then show ?thesis by (simp add: has_edge_def edgeExists_def nodeExists_def)
next
  case True
  with assms have "sorted_wrt (<) (map fst (graph g ! u))"
    by (simp add: rows_wf_def)
  then have d: "distinct (map fst (graph g ! u))"
    by (simp add: strict_sorted_iff)
  show ?thesis
  proof
    assume "has_edge (graph g) u v c"
    then have m: "(v, c) \<in> set (graph g ! u)" by (simp add: has_edge_def)
    with d have "map_of (graph g ! u) v = Some c" by simp
    with m True show "edgeExists g (u, v) \<and> snd (getEdgeCost g (u, v)) = c"
      by (force simp: edgeExists_def nodeExists_def map_count_pos getEdgeCost_def map_at_def)
  next
    assume r: "edgeExists g (u, v) \<and> snd (getEdgeCost g (u, v)) = c"
    then have "v \<in> fst ` set (graph g ! u)"
      by (simp add: edgeExists_def map_count_pos)
    then obtain c' where c': "(v, c') \<in> set (graph g ! u)" by force
    with d have "map_of (graph g ! u) v = Some c'" by simp
    with r have "c' = c" by (auto simp: getEdgeCost_def map_at_def)
    with c' True show "has_edge (graph g) u v c" by (simp add: has_edge_def)
  qed
qed

lemma path_cost_snoc:
  "p \<noteq> [] \<Longrightarrow> path_cost g (p @ [v]) =
     (case path_cost g p of
        None \<Rightarrow> None
      | Some a \<Rightarrow> if edgeExists g (last p, v) then Some (a + snd (getEdgeCost g (last p, v)))
                  else None)"
  by (induction g p rule: path_cost.induct) (auto split: option.splits)

lemma walk_path_cost:
  assumes "rows_wf g"
  shows "walk (graph g) s p a \<Longrightarrow> path_cost g p = Some a"
proof (induction rule: walk.induct)
  case walk_start
  show ?case by simp
next
  case (walk_step p a v c)
  from walk_hd[OF walk_step.hyps(1)] have "p \<noteq> []" by simp
  with walk_step.IH walk_step.hyps(2) has_edge_iff[OF assms] show ?case
    by (simp add: path_cost_snoc)
qed

lemma path_cost_walk:
  assumes "rows_wf g"
  shows "path_cost g p = Some a \<Longrightarrow> walk (graph g) (hd p) p a"
proof (induction p arbitrary: a rule: rev_induct)
  case Nil
  then show ?case by simp
next
  case (snoc v p)
  show ?case
  proof (cases "p = []")
    case True
    with snoc.prems show ?thesis by (auto intro: walk.intros)
  next
    case False
    with snoc.prems obtain a' where a': "path_cost g p = Some a'"
      and e: "edgeExists g (last p, v)" and a: "a = a' + snd (getEdgeCost g (last p, v))"
      by (auto simp: path_cost_snoc split: option.splits if_splits)
    from e has_edge_iff[OF assms, of "last p" v "snd (getEdgeCost g (last p, v))"]
    have "has_edge (graph g) (last p) v (snd (getEdgeCost g (last p, v)))" by simp
    from walk_step[OF snoc.IH[OF a'] this] False a show ?thesis by simp
  qed
qed

lemma path_cost_edges:
  "path_cost g p = Some c \<Longrightarrow> Suc i < length p \<Longrightarrow> edgeExists g (p ! i, p ! Suc i)"
proof (induction g p arbitrary: c i rule: path_cost.induct)
  case (1 g)
  then show ?case by simp
next
  case (2 g v)
  then show ?case by simp
next
  case (3 g u v rest)
  show ?case
  proof (cases i)
    case 0
    with "3.prems" show ?thesis by (simp split: if_splits)
  next
    case (Suc j)
    with "3.prems" "3.IH"[of _ j] show ?thesis by (auto split: if_splits)
  qed
qed

lemma edge_cost_nonneg:
  assumes "costs_nonneg g" and e: "edgeExists g (u, v)"
  shows "0 \<le> snd (getEdgeCost g (u, v))"
proof -
  from e have un: "u < length (graph g)" and "v \<in> fst ` set (graph g ! u)"
    by (simp_all add: edgeExists_def nodeExists_def map_count_def split: if_splits)
  then obtain c where c: "map_of (graph g ! u) v = Some c"
    by (metis weak_map_of_SomeI imageE prod.collapse)
  then have "(v, c) \<in> set (graph g ! u)" by (rule map_of_SomeD)
  moreover from un have "graph g ! u \<in> set (graph g)" by simp
  ultimately have "0 \<le> c" using assms(1) by (force simp: costs_nonneg_def)
  with e c show ?thesis by (simp add: getEdgeCost_def map_at_def)
qed

lemma path_cost_nonneg:
  "costs_nonneg g \<Longrightarrow> path_cost g p = Some a \<Longrightarrow> 0 \<le> a"
proof (induction g p arbitrary: a rule: path_cost.induct)
  case (1 g)
  then show ?case by simp
next
  case (2 g v)
  then show ?case by simp
next
  case (3 g u v rest)
  from "3.prems"(2) obtain b where e: "edgeExists g (u, v)"
    and b: "path_cost g (v # rest) = Some b" and a: "a = snd (getEdgeCost g (u, v)) + b"
    by (auto split: if_splits)
  from "3.IH"[OF e "3.prems"(1) b] edge_cost_nonneg[OF "3.prems"(1) e] a show ?case by simp
qed

lemma adj_wf_graph:
  assumes "targets_exist g" and "costs_nonneg g"
  shows "adj_wf (graph g)"
  unfolding adj_wf_def
proof (intro allI impI)
  fix u v c assume "has_edge (graph g) u v c"
  then have "graph g ! u \<in> set (graph g)" "(v, c) \<in> set (graph g ! u)"
    by (simp_all add: has_edge_def)
  with assms show "v < length (graph g) \<and> 0 \<le> c"
    by (force simp: targets_exist_def costs_nonneg_def nodeExists_def)
qed

subsection \<open>The invariant holds initially and at every round\<close>

lemma search_inv_init:
  assumes "start < length adj"
  shows "search_inv adj h start goal u [] [start] {} Map.empty
           ((\<lambda>i. if i < length adj then kDoubleMax else 0)(start := 0))
           ((\<lambda>i. if i < length adj then kDoubleMax else 0)(start := h start))"
proof -
  have "inv_sets adj start [start] {}"
    using assms by (simp add: inv_sets_def)
  moreover have "inv_labels adj h start
           ((\<lambda>i. if i < length adj then kDoubleMax else 0)(start := 0))
           ((\<lambda>i. if i < length adj then kDoubleMax else 0)(start := h start))"
    using kDoubleMax_pos by (simp add: inv_labels_def)
  moreover have "inv_relaxed adj u [] [start] {} c" for c
    by (simp add: inv_relaxed_def)
  moreover have "inv_tree adj start {} Map.empty
           ((\<lambda>i. if i < length adj then kDoubleMax else 0)(start := 0))"
    unfolding inv_tree_def
  proof (intro allI impI)
    fix v assume "v < length adj"
      and "((\<lambda>i. if i < length adj then kDoubleMax else 0)(start := 0)) v < kDoubleMax"
    then have v: "v = start" by (simp split: if_splits)
    have "tree_path Map.empty [start] start" by (simp add: tree_root)
    moreover have "walk adj start [start] 0" by (rule walk_start)
    ultimately show "\<exists>p. tree_path Map.empty p v
        \<and> walk adj start p (((\<lambda>i. if i < length adj then kDoubleMax else 0)(start := 0)) v)
        \<and> set (butlast p) \<subseteq> {} \<and> distinct p"
      using v by (intro exI[of _ "[start]"]) simp
  qed
  moreover have "inv_closed adj start goal {} c" for c
    by (simp add: inv_closed_def)
  ultimately show ?thesis by (simp add: search_inv_def)
qed

lemma frontier:
  assumes wf: "adj_wf adj" and st: "start < length adj" and con: "consistent adj h"
    and inv: "search_inv adj h start goal u [] open_set closed_set came_from cost cwh"
  shows "walk adj start q a \<Longrightarrow> a < kDoubleMax \<Longrightarrow> last q \<notin> closed_set \<Longrightarrow>
         \<exists>y \<in> set open_set. cost y < kDoubleMax \<and> cost y + h y \<le> a + h (last q)"
proof (induction rule: walk.induct)
  case walk_start
  from inv have "start \<in> set open_set \<union> closed_set" "cost start = 0"
    by (simp_all add: search_inv_def inv_sets_def inv_labels_def)
  with walk_start kDoubleMax_pos show ?case by (intro bexI[of _ start]) auto
next
  case (walk_step p a v c)
  from walk_step.hyps(2) wf have c: "0 \<le> c" by (auto simp: adj_wf_def)
  with walk_step.prems have a: "a < kDoubleMax" by simp
  from walk_step.prems have v: "v \<notin> closed_set" by simp
  show ?case
  proof (cases "last p \<in> closed_set")
    case True
    from inv have rel: "inv_relaxed adj u [] open_set closed_set cost"
      and clo: "inv_closed adj start goal closed_set cost"
      by (simp_all add: search_inv_def)
    from rel True walk_step.hyps(2) v have "v \<in> set open_set" "cost v \<le> cost (last p) + c"
      by (auto simp: inv_relaxed_def)
    moreover from clo True walk_step.hyps(1) have "cost (last p) \<le> a"
      by (auto simp: inv_closed_def)
    ultimately show ?thesis using walk_step.prems(1) by (intro bexI[of _ v]) auto
  next
    case False
    from walk_step.IH[OF a False] obtain y where y: "y \<in> set open_set" "cost y < kDoubleMax"
      "cost y + h y \<le> a + h (last p)" by blast
    from con walk_step.hyps(2) have "h (last p) \<le> c + h v" by (auto simp: consistent_def)
    with y show ?thesis by (intro bexI[of _ y]) auto
  qed
qed

lemma pop_optimal:
  assumes wf: "adj_wf adj" and st: "start < length adj" and con: "consistent adj h"
    and inv: "search_inv adj h start goal u [] open_set closed_set came_from cost cwh"
    and target: "walk adj start qs as" "last qs = goal" "as < kDoubleMax" "h goal \<le> 0"
    and cur: "current \<in> set open_set" "\<forall>y \<in> set open_set. cwh current \<le> cwh y"
  shows "cost current < kDoubleMax
       \<and> (\<forall>q a. walk adj start q a \<longrightarrow> last q = current \<longrightarrow> cost current \<le> a)"
proof -
  from inv have sets: "inv_sets adj start open_set closed_set"
    and lab: "inv_labels adj h start cost cwh"
    and clo: "inv_closed adj start goal closed_set cost"
    by (simp_all add: search_inv_def)
  have cwh_open: "cwh y = cost y + h y" if "y \<in> set open_set" "cost y < kDoubleMax" for y
  proof -
    from that(1) sets have "y < length adj" by (auto simp: inv_sets_def)
    with lab that(2) show ?thesis by (auto simp: inv_labels_def)
  qed
  from cur(1) sets have cn: "current < length adj" and cc: "current \<notin> closed_set"
    by (auto simp: inv_sets_def)
  from clo target(2) have "last qs \<notin> closed_set" by (simp add: inv_closed_def)
  from frontier[OF wf st con inv target(1,3) this] obtain y where
    y: "y \<in> set open_set" "cost y < kDoubleMax" "cost y + h y \<le> as + h (last qs)" by blast
  with target have "cwh y < kDoubleMax" using cwh_open[OF y(1,2)] by simp
  with cur(2) y(1) have "cwh current < kDoubleMax" by force
  with lab cn have fin: "cost current < kDoubleMax" and eq: "cwh current = cost current + h current"
    by (auto simp: inv_labels_def)
  have "cost current \<le> a" if w: "walk adj start q a" and l: "last q = current" for q a
  proof (cases "a < kDoubleMax")
    case False
    with fin show ?thesis by simp
  next
    case True
    from cc l have "last q \<notin> closed_set" by simp
    from frontier[OF wf st con inv w True this] obtain y' where
      y': "y' \<in> set open_set" "cost y' < kDoubleMax" "cost y' + h y' \<le> a + h (last q)" by blast
    from cur(2) y'(1) have "cwh current \<le> cwh y'" by simp
    with eq cwh_open[OF y'(1,2)] y'(3) l show ?thesis by simp
  qed
  with fin show ?thesis by blast
qed

lemma pop_goal:
  assumes inv: "search_inv adj h start goal u [] open_set closed_set came_from cost cwh"
    and "goal < length adj" and "cost goal < kDoubleMax"
  shows "\<exists>p. reconstructSolution came_from goal = Some p \<and> walk adj start p (cost goal)
            \<and> last p = goal"
proof -
  from inv have "inv_tree adj start closed_set came_from cost" by (simp add: search_inv_def)
  with assms(2,3) obtain p where "tree_path came_from p goal" "walk adj start p (cost goal)"
    by (auto simp: inv_tree_def)
  with tree_path_reconstruct[of came_from p goal] tree_path_last[of came_from p goal]
  show ?thesis by auto
qed

lemma pop_inv:
  assumes inv: "search_inv adj h start goal u [] open_set closed_set came_from cost cwh"
    and cur: "current \<in> set open_set" "current \<noteq> goal"
    and opt: "cost current < kDoubleMax"
      "\<forall>q a. walk adj start q a \<longrightarrow> last q = current \<longrightarrow> cost current \<le> a"
  shows "search_inv adj h start goal current (adj ! current)
           (set_erase current open_set) (insert current closed_set) came_from cost cwh"
proof -
  from inv have sets: "inv_sets adj start open_set closed_set"
    and lab: "inv_labels adj h start cost cwh"
    and rel: "inv_relaxed adj u [] open_set closed_set cost"
    and tree: "inv_tree adj start closed_set came_from cost"
    and clo: "inv_closed adj start goal closed_set cost"
    by (simp_all add: search_inv_def)
  have "inv_sets adj start (set_erase current open_set) (insert current closed_set)"
    using sets cur(1) by (auto simp: inv_sets_def set_set_erase)
  moreover have "inv_relaxed adj current (adj ! current) (set_erase current open_set)
      (insert current closed_set) cost"
    unfolding inv_relaxed_def
  proof (intro allI impI)
    fix x v c assume x: "x \<in> insert current closed_set" and e: "has_edge adj x v c"
    show "x = current \<and> (v, c) \<in> set (adj ! current) \<or>
         v \<in> insert current closed_set \<union> set (set_erase current open_set) \<and>
         (v \<notin> insert current closed_set \<longrightarrow> cost v \<le> cost x + c)"
    proof (cases "x = current")
      case True
      with e show ?thesis by (simp add: has_edge_def)
    next
      case False
      with x have "x \<in> closed_set" by simp
      with rel e have "v \<in> closed_set \<union> set open_set \<and> (v \<notin> closed_set \<longrightarrow> cost v \<le> cost x + c)"
        by (auto simp: inv_relaxed_def)
      then show ?thesis by (auto simp: set_set_erase)
    qed
  qed
  moreover have "inv_tree adj start (insert current closed_set) came_from cost"
    using tree by (fastforce simp: inv_tree_def)
  moreover have "inv_closed adj start goal (insert current closed_set) cost"
    using clo cur(2) opt by (auto simp: inv_closed_def)
  ultimately show ?thesis using lab by (simp add: search_inv_def)
qed

lemma neighbor_closed:
  assumes inv: "search_inv adj h start goal u ((v, c) # ns) open_set closed_set came_from cost cwh"
    and v: "v \<in> closed_set"
  shows "search_inv adj h start goal u ns open_set closed_set came_from cost cwh"
proof -
  from inv have rel: "inv_relaxed adj u ((v, c) # ns) open_set closed_set cost"
    by (simp add: search_inv_def)
  have "inv_relaxed adj u ns open_set closed_set cost"
    unfolding inv_relaxed_def
  proof (intro allI impI)
    fix x v' c' assume "x \<in> closed_set" "has_edge adj x v' c'"
    with rel have "x = u \<and> (v', c') \<in> set ((v, c) # ns) \<or>
        v' \<in> closed_set \<union> set open_set \<and> (v' \<notin> closed_set \<longrightarrow> cost v' \<le> cost x + c')"
      unfolding inv_relaxed_def by blast
    with v show "x = u \<and> (v', c') \<in> set ns \<or>
        v' \<in> closed_set \<union> set open_set \<and> (v' \<notin> closed_set \<longrightarrow> cost v' \<le> cost x + c')"
      by auto
  qed
  with inv show ?thesis by (simp add: search_inv_def)
qed

lemma neighbor_keep:
  assumes wf: "adj_wf adj"
    and inv: "search_inv adj h start goal u ((v, c) # ns) open_set closed_set came_from cost cwh"
    and e: "has_edge adj u v c"
    and v: "v \<notin> closed_set" and le: "cost u + c \<ge> cost v"
  shows "search_inv adj h start goal u ns (set_insert v open_set) closed_set came_from cost cwh"
proof -
  from inv have sets: "inv_sets adj start open_set closed_set"
    and rel: "inv_relaxed adj u ((v, c) # ns) open_set closed_set cost"
    by (simp_all add: search_inv_def)
  from wf e have vn: "v < length adj" by (auto simp: adj_wf_def)
  have "inv_sets adj start (set_insert v open_set) closed_set"
    using sets vn v by (auto simp: inv_sets_def set_set_insert)
  moreover have "inv_relaxed adj u ns (set_insert v open_set) closed_set cost"
    unfolding inv_relaxed_def
  proof (intro allI impI)
    fix x v' c' assume "x \<in> closed_set" "has_edge adj x v' c'"
    with rel have "x = u \<and> (v', c') \<in> set ((v, c) # ns) \<or>
        v' \<in> closed_set \<union> set open_set \<and> (v' \<notin> closed_set \<longrightarrow> cost v' \<le> cost x + c')"
      unfolding inv_relaxed_def by blast
    with v le show "x = u \<and> (v', c') \<in> set ns \<or>
        v' \<in> closed_set \<union> set (set_insert v open_set)
        \<and> (v' \<notin> closed_set \<longrightarrow> cost v' \<le> cost x + c')"
      by (auto simp: set_set_insert)
  qed
  ultimately show ?thesis using inv by (simp add: search_inv_def)
qed

lemma neighbor_improve:
  assumes wf: "adj_wf adj"
    and inv: "search_inv adj h start goal u ((v, c) # ns) open_set closed_set came_from cost cwh"
    and u: "u \<in> closed_set" and e: "has_edge adj u v c"
    and v: "v \<notin> closed_set" and less: "\<not> cost u + c \<ge> cost v"
  shows "search_inv adj h start goal u ns (set_insert v open_set) closed_set
           (came_from(v \<mapsto> u)) (cost(v := cost u + c)) (cwh(v := cost u + c + h v))"
proof -
  from inv have sets: "inv_sets adj start open_set closed_set"
    and lab: "inv_labels adj h start cost cwh"
    and rel: "inv_relaxed adj u ((v, c) # ns) open_set closed_set cost"
    and tree: "inv_tree adj start closed_set came_from cost"
    and clo: "inv_closed adj start goal closed_set cost"
    by (simp_all add: search_inv_def)
  from wf e have vn: "v < length adj" and c0: "0 \<le> c" by (auto simp: adj_wf_def)
  from u sets have un: "u < length adj" by (auto simp: inv_sets_def)
  from u v have uv: "u \<noteq> v" by auto
  from lab un have cu0: "0 \<le> cost u" by (simp add: inv_labels_def)
  from lab vn have cvM: "cost v \<le> kDoubleMax" by (auto simp: inv_labels_def)
  with less have newM: "cost u + c < kDoubleMax" by simp
  from lab less cu0 c0 have vs: "v \<noteq> start" by (auto simp: inv_labels_def)
  have 1: "inv_sets adj start (set_insert v open_set) closed_set"
    using sets vn v by (auto simp: inv_sets_def set_set_insert)
  have 2: "inv_labels adj h start (cost(v := cost u + c)) (cwh(v := cost u + c + h v))"
    using lab vs cu0 c0 newM by (auto simp: inv_labels_def)
  have 3: "inv_relaxed adj u ns (set_insert v open_set) closed_set (cost(v := cost u + c))"
    unfolding inv_relaxed_def
  proof (intro allI impI)
    fix x v' c' assume x: "x \<in> closed_set" and e': "has_edge adj x v' c'"
    from x v have xv: "x \<noteq> v" by auto
    from rel x e' have "x = u \<and> (v', c') \<in> set ((v, c) # ns) \<or>
        v' \<in> closed_set \<union> set open_set \<and> (v' \<notin> closed_set \<longrightarrow> cost v' \<le> cost x + c')"
      unfolding inv_relaxed_def by blast
    then consider "x = u" "(v', c') \<in> set ns" | "x = u" "v' = v" "c' = c"
      | "v' \<in> closed_set \<union> set open_set" "v' \<notin> closed_set \<longrightarrow> cost v' \<le> cost x + c'"
      by auto
    then show "x = u \<and> (v', c') \<in> set ns \<or>
        v' \<in> closed_set \<union> set (set_insert v open_set)
        \<and> (v' \<notin> closed_set \<longrightarrow> (cost(v := cost u + c)) v' \<le> (cost(v := cost u + c)) x + c')"
    proof cases
      case 1
      then show ?thesis by simp
    next
      case 2
      with uv show ?thesis by (simp add: set_set_insert)
    next
      case 3
      with xv less show ?thesis by (auto simp: set_set_insert)
    qed
  qed
  have 4: "inv_tree adj start closed_set (came_from(v \<mapsto> u)) (cost(v := cost u + c))"
    unfolding inv_tree_def
  proof (intro allI impI)
    fix w assume wn: "w < length adj" and wM: "(cost(v := cost u + c)) w < kDoubleMax"
    show "\<exists>p. tree_path (came_from(v \<mapsto> u)) p w
        \<and> walk adj start p ((cost(v := cost u + c)) w) \<and> set (butlast p) \<subseteq> closed_set
        \<and> distinct p"
    proof (cases "w = v")
      case True
      from clo u have "cost u < kDoubleMax" by (simp add: inv_closed_def)
      with tree un obtain p where p: "tree_path came_from p u" "walk adj start p (cost u)"
        "set (butlast p) \<subseteq> closed_set" "distinct p" by (auto simp: inv_tree_def)
      from tree_path_last[OF p(1)] have pl: "p \<noteq> []" "last p = u" by auto
      then have "set p = insert u (set (butlast p))"
        by (metis append_butlast_last_id list.simps(15) rotate1.simps(2) set_rotate1)
      with p(3) u have sp: "set p \<subseteq> closed_set" by auto
      with v have "\<forall>x \<in> set p. (came_from(v \<mapsto> u)) x = came_from x" by auto
      from tree_path_cong[where cf' = "came_from(v \<mapsto> u)", OF p(1) this]
      have "tree_path (came_from(v \<mapsto> u)) p u" .
      then have "tree_path (came_from(v \<mapsto> u)) (p @ [v]) v"
        by (intro tree_step) simp_all
      moreover from p(2) e pl have "walk adj start (p @ [v]) (cost u + c)"
        by (intro walk_step) simp_all
      moreover from sp v p(4) have "distinct (p @ [v])" by auto
      ultimately show ?thesis using True sp by (intro exI[of _ "p @ [v]"]) simp
    next
      case False
      with wM have "cost w < kDoubleMax" by simp
      with tree wn obtain p where p: "tree_path came_from p w" "walk adj start p (cost w)"
        "set (butlast p) \<subseteq> closed_set" "distinct p" by (auto simp: inv_tree_def)
      from tree_path_last[OF p(1)] have pl: "p \<noteq> []" "last p = w" by auto
      then have "set p = insert w (set (butlast p))"
        by (metis append_butlast_last_id list.simps(15) rotate1.simps(2) set_rotate1)
      with p(3) v False have "\<forall>x \<in> set p. (came_from(v \<mapsto> u)) x = came_from x" by auto
      from tree_path_cong[where cf' = "came_from(v \<mapsto> u)", OF p(1) this] p(2,3,4) False
      show ?thesis by (intro exI[of _ p]) simp
    qed
  qed
  have 5: "inv_closed adj start goal closed_set (cost(v := cost u + c))"
    using clo v by (auto simp: inv_closed_def)
  from 1 2 3 4 5 show ?thesis by (simp add: search_inv_def)
qed

subsection \<open>Finite labels\<close>

text \<open>Reading and writing the variables \<open>cost\<close> and \<open>cost_with_heuristic\<close> while all their
  values are finite.\<close>

lemma finite_labels_apply: "finite_labels f v = Finite (f v)"
  by (simp add: finite_labels_def)

lemma finite_labels_upd [simp]: "(finite_labels f)(v := Finite x) = finite_labels (f(v := x))"
  by (auto simp: finite_labels_def fun_eq_iff)

lemma finite_labels_eq [simp]: "finite_labels f = finite_labels f' \<longleftrightarrow> f = f'"
  by (auto simp: finite_labels_def fun_eq_iff)

subsection \<open>Sums on a grid are exact\<close>

text \<open>
  On a grid of costs the cost of a walk is a multiple of the grid's unit, bounded by the
  number of its edges; a walk without a repeated node has fewer edges than the graph has
  nodes. So the sum of such a cost and the cost of a further edge, and that sum plus the
  estimate of a node, are binary64 numbers.
\<close>

lemma walk_grid:
  assumes "grid_adj adj e K"
  shows "walk adj s p a \<Longrightarrow> \<exists>m :: nat. m \<le> (length p - 1) * K \<and> a = of_nat m * 2 powi e"
proof (induction rule: walk.induct)
  case walk_start
  show ?case by (intro exI[of _ 0]) simp
next
  case (walk_step p a v c)
  from walk_step.IH obtain m :: nat where m: "m \<le> (length p - 1) * K" "a = of_nat m * 2 powi e"
    by blast
  from assms walk_step.hyps(2) obtain k :: nat where k: "k \<le> K" "c = of_nat k * 2 powi e"
    unfolding grid_adj_def by blast
  from walk_hd[OF walk_step.hyps(1)] have "length p \<ge> 1" by (cases p) auto
  then have "(length p - 1) * K + K = length p * K"
    by (cases "length p") simp_all
  with m(1) k(1) have "m + k \<le> (length (p @ [v]) - 1) * K" by simp
  moreover have "a + c = of_nat (m + k) * 2 powi e"
    by (simp add: m(2) k(2) distrib_right)
  ultimately show ?case by blast
qed

lemma walk_nodes:
  assumes "adj_wf adj" and "s < length adj"
  shows "walk adj s p a \<Longrightarrow> set p \<subseteq> {..<length adj}"
proof (induction rule: walk.induct)
  case walk_start
  with assms(2) show ?case by simp
next
  case (walk_step p a v c)
  from assms(1) walk_step.hyps(2) have "v < length adj" by (auto simp: adj_wf_def)
  with walk_step.IH show ?case by simp
qed

lemma exact_sums:
  assumes wf: "adj_wf adj" and st: "start < length adj"
    and grid: "grid_adj adj e K" and range: "- 1074 \<le> e" "e \<le> 971"
    and est: "\<exists>z :: int. \<bar>z\<bar> \<le> int Z \<and> hv = of_int z * 2 powi e"
    and bound: "length adj * K + Z < 2 ^ 53"
    and w: "walk adj start p a" and d: "distinct p"
    and e: "has_edge adj (last p) v c"
  shows "is_double (a + c) \<and> is_double (a + c + hv)"
proof -
  from walk_nodes[OF wf st w] have "card (set p) \<le> card {..<length adj}"
    by (intro card_mono) auto
  with d have len: "length p \<le> length adj" by (simp add: distinct_card)
  from walk_grid[OF grid w] obtain m :: nat where
    m: "m \<le> (length p - 1) * K" "a = of_nat m * 2 powi e" by blast
  from grid e obtain k :: nat where k: "k \<le> K" "c = of_nat k * 2 powi e"
    unfolding grid_adj_def by blast
  from est obtain z :: int where z: "\<bar>z\<bar> \<le> int Z" "hv = of_int z * 2 powi e" by blast
  from walk_hd[OF w] have "length p \<ge> 1" by (cases p) auto
  then have "(length p - 1) * K + K = length p * K"
    by (cases "length p") simp_all
  with m(1) k(1) have "m + k \<le> length p * K" by simp
  also from len have "\<dots> \<le> length adj * K" by simp
  finally have mk: "m + k \<le> length adj * K" .
  with bound have b1: "m + k < 2 ^ 53" by simp
  then have "int (m + k) < 2 ^ 53" by simp
  then have i1: "\<bar>int (m + k)\<bar> < 2 ^ 53" by simp
  have s1: "a + c = of_int (int (m + k)) * 2 powi e"
    by (simp add: m(2) k(2) distrib_right)
  from mk bound have "m + k + Z < 2 ^ 53" by simp
  then have "int (m + k + Z) < 2 ^ 53" by simp
  with z(1) have i2: "\<bar>int (m + k) + z\<bar> < 2 ^ 53" by simp
  have s2: "a + c + hv = of_int (int (m + k) + z) * 2 powi e"
    by (simp add: m(2) k(2) z(2) distrib_right)
  from is_double_of_int[OF i1 range] is_double_of_int[OF i2 range] s1 s2
  show ?thesis by simp
qed

lemma grid_exact_adj:
  assumes wf: "adj_wf adj" and st: "start < length adj"
    and grid: "grid_adj adj e K" and range: "- 1074 \<le> e" "e \<le> 971"
    and est: "\<forall>v < length adj. \<exists>z :: int. \<bar>z\<bar> \<le> int Z \<and> h v = of_int z * 2 powi e"
    and bound: "length adj * K + Z < 2 ^ 53"
  shows "exact_adj adj h start"
  unfolding exact_adj_def
proof (intro allI impI)
  fix p a v c
  assume w: "walk adj start p a" and d: "distinct p" and e: "has_edge adj (last p) v c"
  from wf e have "v < length adj" by (auto simp: adj_wf_def)
  with est have z: "\<exists>z :: int. \<bar>z\<bar> \<le> int Z \<and> h v = of_int z * 2 powi e" by simp
  from exact_sums[OF wf st grid range z bound w d e]
  show "is_double (a + c) \<and> is_double (a + c + h v)" .
qed

subsection \<open>The loops over a row\<close>

text \<open>
  When every sum formed for the row of \<open>u\<close> is a binary64 number, the \<open>for\<close> loop keeps
  the variables finite and restores the invariant. \<open>row_sums_exact\<close> gives that condition
  for the node just closed, whose cost is that of a walk without a repeated node.
\<close>

lemma astar_neighbors_inv:
  assumes wf: "adj_wf adj" and total: "\<forall>v < length adj. heuristic v = Some (h v)"
    and u: "u \<in> closed_set"
  shows "\<lbrakk>\<forall>n \<in> set ns. has_edge adj u (fst n) (snd n) \<and> is_double (cu + snd n)
              \<and> is_double (cu + snd n + h (fst n));
          cost u = cu;
          search_inv adj h start goal u ns open_set closed_set came_from cost cwh\<rbrakk>
         \<Longrightarrow> \<exists>open_set' came_from' cost' cwh'.
               astar_neighbors heuristic u closed_set ns
                 (open_set, came_from, finite_labels cost, finite_labels cwh) =
                 Some (open_set', came_from', finite_labels cost', finite_labels cwh')
               \<and> search_inv adj h start goal u [] open_set' closed_set came_from' cost' cwh'"
proof (induction ns arbitrary: open_set came_from cost cwh)
  case Nil
  then show ?case by auto
next
  case (Cons n ns)
  obtain v c where n: "n = (v, c)" by (cases n)
  from Cons.prems(1) n have e: "has_edge adj u v c"
    and ex: "is_double (cu + c)" "is_double (cu + c + h v)"
    and es: "\<forall>n \<in> set ns. has_edge adj u (fst n) (snd n) \<and> is_double (cu + snd n)
               \<and> is_double (cu + snd n + h (fst n))"
    by auto
  note cu = Cons.prems(2)
  from wf e have vn: "v < length adj" by (auto simp: adj_wf_def)
  note inv = Cons.prems(3)[unfolded n]
  show ?case
  proof (cases "v \<in> closed_set")
    case True
    have step: "astar_neighbors heuristic u closed_set (n # ns)
            (open_set, came_from, finite_labels cost, finite_labels cwh) =
          astar_neighbors heuristic u closed_set ns
            (open_set, came_from, finite_labels cost, finite_labels cwh)"
      using True n by simp
    show ?thesis
      unfolding step by (rule Cons.IH[OF es cu neighbor_closed[OF inv True]])
  next
    case False
    show ?thesis
    proof (cases "cost u + c \<ge> cost v")
      case True
      have step: "astar_neighbors heuristic u closed_set (n # ns)
              (open_set, came_from, finite_labels cost, finite_labels cwh) =
            astar_neighbors heuristic u closed_set ns
              (set_insert v open_set, came_from, finite_labels cost, finite_labels cwh)"
        using False True n ex(1) cu by (simp add: Let_def finite_labels_apply)
      show ?thesis
        unfolding step by (rule Cons.IH[OF es cu neighbor_keep[OF wf inv e False True]])
    next
      case less: False
      from u False have uv: "u \<noteq> v" by auto
      have step: "astar_neighbors heuristic u closed_set (n # ns)
              (open_set, came_from, finite_labels cost, finite_labels cwh) =
            astar_neighbors heuristic u closed_set ns
              (set_insert v open_set, came_from(v \<mapsto> u), finite_labels (cost(v := cost u + c)),
               finite_labels (cwh(v := cost u + c + h v)))"
        using False less n total vn ex cu by (simp add: Let_def finite_labels_apply)
      have cu': "(cost(v := cost u + c)) u = cu" using uv cu by simp
      show ?thesis
        unfolding step
        by (rule Cons.IH[OF es cu' neighbor_improve[OF wf inv u e False less]])
    qed
  qed
qed

lemma dijkstra_neighbors_inv:
  assumes wf: "adj_wf adj" and u: "u \<in> closed_set"
  shows "\<lbrakk>\<forall>n \<in> set ns. has_edge adj u (fst n) (snd n) \<and> is_double (cu + snd n);
          cost u = cu;
          search_inv adj (\<lambda>v. 0) start goal u ns open_set closed_set came_from cost cost\<rbrakk>
         \<Longrightarrow> \<exists>open_set' came_from' cost'.
               dijkstra_neighbors u closed_set ns (open_set, came_from, finite_labels cost) =
                 (open_set', came_from', finite_labels cost')
               \<and> search_inv adj (\<lambda>v. 0) start goal u [] open_set' closed_set came_from'
                   cost' cost'"
proof (induction ns arbitrary: open_set came_from cost)
  case Nil
  then show ?case by auto
next
  case (Cons n ns)
  obtain v c where n: "n = (v, c)" by (cases n)
  from Cons.prems(1) n have e: "has_edge adj u v c"
    and ex: "is_double (cu + c)"
    and es: "\<forall>n \<in> set ns. has_edge adj u (fst n) (snd n) \<and> is_double (cu + snd n)"
    by auto
  note cu = Cons.prems(2)
  note inv = Cons.prems(3)[unfolded n]
  show ?case
  proof (cases "v \<in> closed_set")
    case True
    have step: "dijkstra_neighbors u closed_set (n # ns)
            (open_set, came_from, finite_labels cost) =
          dijkstra_neighbors u closed_set ns (open_set, came_from, finite_labels cost)"
      using True n by simp
    show ?thesis
      unfolding step by (rule Cons.IH[OF es cu neighbor_closed[OF inv True]])
  next
    case False
    show ?thesis
    proof (cases "cost u + c \<ge> cost v")
      case True
      have step: "dijkstra_neighbors u closed_set (n # ns)
              (open_set, came_from, finite_labels cost) =
            dijkstra_neighbors u closed_set ns
              (set_insert v open_set, came_from, finite_labels cost)"
        using False True n ex cu by (simp add: Let_def finite_labels_apply)
      show ?thesis
        unfolding step by (rule Cons.IH[OF es cu neighbor_keep[OF wf inv e False True]])
    next
      case less: False
      from u False have uv: "u \<noteq> v" by auto
      have step: "dijkstra_neighbors u closed_set (n # ns)
              (open_set, came_from, finite_labels cost) =
            dijkstra_neighbors u closed_set ns
              (set_insert v open_set, came_from(v \<mapsto> u), finite_labels (cost(v := cost u + c)))"
        using False less n ex cu by (simp add: Let_def finite_labels_apply)
      have cu': "(cost(v := cost u + c)) u = cu" using uv cu by simp
      from neighbor_improve[OF wf inv u e False less]
      have inv': "search_inv adj (\<lambda>v. 0) start goal u ns (set_insert v open_set) closed_set
          (came_from(v \<mapsto> u)) (cost(v := cost u + c)) (cost(v := cost u + c))"
        by simp
      show ?thesis
        unfolding step by (rule Cons.IH[OF es cu' inv'])
    qed
  qed
qed

lemma row_sums_exact:
  assumes ex: "exact_adj adj h start"
    and inv: "search_inv adj h start goal u [] open_set closed_set came_from cost cwh"
    and cur: "current < length adj" "cost current < kDoubleMax"
  shows "\<forall>n \<in> set (adj ! current). has_edge adj current (fst n) (snd n)
           \<and> is_double (cost current + snd n)
           \<and> is_double (cost current + snd n + h (fst n))"
proof
  fix n assume n: "n \<in> set (adj ! current)"
  with cur(1) have e: "has_edge adj current (fst n) (snd n)" by (simp add: has_edge_def)
  from inv have "inv_tree adj start closed_set came_from cost" by (simp add: search_inv_def)
  with cur obtain p where p: "tree_path came_from p current"
    "walk adj start p (cost current)" "distinct p"
    by (auto simp: inv_tree_def)
  from tree_path_last[OF p(1)] e have "has_edge adj (last p) (fst n) (snd n)" by simp
  with ex p(2,3) have "is_double (cost current + snd n)
      \<and> is_double (cost current + snd n + h (fst n))"
    unfolding exact_adj_def by blast
  with e show "has_edge adj current (fst n) (snd n) \<and> is_double (cost current + snd n)
      \<and> is_double (cost current + snd n + h (fst n))"
    by simp
qed

subsection \<open>The loops\<close>

text \<open>
  When the sums are exact and some path from \<open>start\<close> to \<open>goal\<close> costs less than the
  sentinel, the \<open>while\<close> loops return true with a cheapest path; when no path leads to
  \<open>goal\<close>, they return false, whatever the costs are.
\<close>

lemma astar_loop_optimal:
  assumes "adj_wf adj" and "start < length adj" and "consistent adj h"
    and "\<forall>v < length adj. heuristic v = Some (h v)"
    and "exact_adj adj h start"
    and "walk adj start qs as" and "last qs = goal" and "as < kDoubleMax" and "h goal \<le> 0"
    and "\<exists>u rc rw. cost = finite_labels rc \<and> cwh = finite_labels rw
           \<and> search_inv adj h start goal u [] open_set closed_set came_from rc rw"
  shows "\<exists>p a. astar_loop adj heuristic goal open_set closed_set came_from cost cwh solution =
                 Some (True, p)
               \<and> walk adj start p a \<and> last p = goal
               \<and> (\<forall>q b. walk adj start q b \<longrightarrow> last q = goal \<longrightarrow> a \<le> b)"
  using assms
proof (induction adj heuristic goal open_set closed_set came_from cost cwh solution
    rule: astar_loop.induct)
  case (1 adj heuristic goal open_set closed_set came_from cost cwh solution)
  note wf = "1.prems"(1) and st = "1.prems"(2) and con = "1.prems"(3) and total = "1.prems"(4)
    and ex = "1.prems"(5) and target = "1.prems"(6-9)
  from "1.prems"(10) obtain u rc rw where cost: "cost = finite_labels rc" and cwh: "cwh = finite_labels rw"
    and inv: "search_inv adj h start goal u [] open_set closed_set came_from rc rw" by blast
  from inv have sets: "inv_sets adj start open_set closed_set"
    and clo: "inv_closed adj start goal closed_set rc"
    by (simp_all add: search_inv_def)
  from clo target(2) have "last qs \<notin> closed_set" by (simp add: inv_closed_def)
  from frontier[OF wf st con inv target(1,3) this] have "set open_set \<noteq> {}" by auto
  then obtain first rest where os: "open_set = first # rest" by (cases open_set) auto
  define current where "current = min_element_from cwh first rest"
  have mem: "current \<in> set open_set"
    using min_element_from_mem[of cwh first rest] by (simp add: os current_def)
  have least: "\<forall>y \<in> set open_set. rw current \<le> rw y"
    using min_element_from_least[of _ first rest cwh]
    by (simp add: os current_def cwh finite_labels_apply)
  from pop_optimal[OF wf st con inv target mem least]
  have fin: "rc current < kDoubleMax"
    and opt: "\<forall>q a. walk adj start q a \<longrightarrow> last q = current \<longrightarrow> rc current \<le> a"
    by simp_all
  from mem sets have cn: "current < length adj" by (auto simp: inv_sets_def)
  show ?case
  proof (cases "current = goal")
    case True
    from pop_goal[OF inv] cn fin True obtain p where
      p: "reconstructSolution came_from goal = Some p" "walk adj start p (rc goal)"
        "last p = goal" by auto
    have "astar_loop adj heuristic goal open_set closed_set came_from cost cwh solution =
          Some (True, p)"
      using os True p(1) by (subst astar_loop.simps) (simp add: current_def[symmetric])
    with p(2,3) opt True show ?thesis by blast
  next
    case False
    let ?closed = "insert current closed_set"
    from pop_inv[OF inv mem False fin opt]
    have inv1: "search_inv adj h start goal current (adj ! current)
        (set_erase current open_set) ?closed came_from rc rw" .
    note edges = row_sums_exact[OF ex inv cn fin]
    from astar_neighbors_inv[where cost = rc and cwh = rw and cu = "rc current"
        and u = current and closed_set = "?closed", OF wf total _ edges refl inv1]
    obtain open_set' came_from' rc' rw' where
      nb0: "astar_neighbors heuristic current ?closed (adj ! current)
             (set_erase current open_set, came_from, finite_labels rc, finite_labels rw) =
           Some (open_set', came_from', finite_labels rc', finite_labels rw')"
      and inv2: "search_inv adj h start goal current [] open_set' ?closed came_from' rc' rw'"
      by auto
    define cost' where "cost' = finite_labels rc'"
    define cwh' where "cwh' = finite_labels rw'"
    from nb0 have nb: "astar_neighbors heuristic current ?closed (adj ! current)
             (set_erase current open_set, came_from, cost, cwh) =
           Some (open_set', came_from', cost', cwh')"
      by (simp add: cost cwh cost'_def cwh'_def)
    have step: "astar_loop adj heuristic goal open_set closed_set came_from cost cwh solution =
          astar_loop adj heuristic goal open_set' ?closed came_from' cost' cwh' solution"
      using os False cn nb
      by (subst astar_loop.simps) (simp add: current_def[symmetric] Let_def)
    have cn': "\<not> \<not> current < length adj" using cn by simp
    from inv2 have inv': "\<exists>u rc rw. cost' = finite_labels rc \<and> cwh' = finite_labels rw
        \<and> search_inv adj h start goal u [] open_set' ?closed came_from' rc rw"
      unfolding cost'_def cwh'_def by blast
    show ?thesis
      unfolding step
      by (rule "1.IH"[OF os current_def False cn' refl refl nb refl refl refl wf st con total
            ex target inv'])
  qed
qed

lemma dijkstra_loop_optimal:
  assumes "adj_wf adj" and "start < length adj"
    and "exact_adj adj (\<lambda>v. 0) start"
    and "walk adj start qs as" and "last qs = goal" and "as < kDoubleMax"
    and "\<exists>u rc. cost = finite_labels rc
           \<and> search_inv adj (\<lambda>v. 0) start goal u [] open_set closed_set came_from rc rc"
  shows "\<exists>p a. dijkstra_loop adj goal open_set closed_set came_from cost solution =
                 Some (True, p)
               \<and> walk adj start p a \<and> last p = goal
               \<and> (\<forall>q b. walk adj start q b \<longrightarrow> last q = goal \<longrightarrow> a \<le> b)"
  using assms
proof (induction adj goal open_set closed_set came_from cost solution
    rule: dijkstra_loop.induct)
  case (1 adj goal open_set closed_set came_from cost solution)
  note wf = "1.prems"(1) and st = "1.prems"(2) and ex = "1.prems"(3)
    and target = "1.prems"(4-6)
  let ?h = "\<lambda>v :: nat. 0 :: real"
  have con: "consistent adj ?h" using wf by (auto simp: consistent_def adj_wf_def)
  from "1.prems"(7) obtain u rc where cost: "cost = finite_labels rc"
    and inv: "search_inv adj ?h start goal u [] open_set closed_set came_from rc rc" by blast
  from inv have sets: "inv_sets adj start open_set closed_set"
    and clo: "inv_closed adj start goal closed_set rc"
    by (simp_all add: search_inv_def)
  from clo target(2) have "last qs \<notin> closed_set" by (simp add: inv_closed_def)
  from frontier[OF wf st con inv target(1,3) this] have "set open_set \<noteq> {}" by auto
  then obtain first rest where os: "open_set = first # rest" by (cases open_set) auto
  define current where "current = min_element_from cost first rest"
  have mem: "current \<in> set open_set"
    using min_element_from_mem[of cost first rest] by (simp add: os current_def)
  have least: "\<forall>y \<in> set open_set. rc current \<le> rc y"
    using min_element_from_least[of _ first rest cost]
    by (simp add: os current_def cost finite_labels_apply)
  have h0: "?h goal \<le> 0" by simp
  from pop_optimal[OF wf st con inv target h0 mem least]
  have fin: "rc current < kDoubleMax"
    and opt: "\<forall>q a. walk adj start q a \<longrightarrow> last q = current \<longrightarrow> rc current \<le> a"
    by simp_all
  from mem sets have cn: "current < length adj" by (auto simp: inv_sets_def)
  show ?case
  proof (cases "current = goal")
    case True
    from pop_goal[OF inv] cn fin True obtain p where
      p: "reconstructSolution came_from goal = Some p" "walk adj start p (rc goal)"
        "last p = goal" by auto
    have "dijkstra_loop adj goal open_set closed_set came_from cost solution = Some (True, p)"
      using os True p(1) by (subst dijkstra_loop.simps) (simp add: current_def[symmetric])
    with p(2,3) opt True show ?thesis by blast
  next
    case False
    let ?closed = "insert current closed_set"
    from pop_inv[OF inv mem False fin opt]
    have inv1: "search_inv adj ?h start goal current (adj ! current)
        (set_erase current open_set) ?closed came_from rc rc" .
    from row_sums_exact[OF ex inv cn fin]
    have edges: "\<forall>n \<in> set (adj ! current). has_edge adj current (fst n) (snd n)
        \<and> is_double (rc current + snd n)" by simp
    from dijkstra_neighbors_inv[where cost = rc and cu = "rc current"
        and u = current and closed_set = "?closed", OF wf _ edges refl inv1]
    obtain open_set' came_from' rc' where
      nb0: "dijkstra_neighbors current ?closed (adj ! current)
             (set_erase current open_set, came_from, finite_labels rc) =
           (open_set', came_from', finite_labels rc')"
      and inv2: "search_inv adj ?h start goal current [] open_set' ?closed came_from' rc' rc'"
      by auto
    define cost' where "cost' = finite_labels rc'"
    from nb0 have nb: "dijkstra_neighbors current ?closed (adj ! current)
             (set_erase current open_set, came_from, cost) = (open_set', came_from', cost')"
      by (simp add: cost cost'_def)
    have step: "dijkstra_loop adj goal open_set closed_set came_from cost solution =
          dijkstra_loop adj goal open_set' ?closed came_from' cost' solution"
      using os False cn nb
      by (subst dijkstra_loop.simps) (simp add: current_def[symmetric] Let_def)
    have cn': "\<not> \<not> current < length adj" using cn by simp
    from inv2 have inv': "\<exists>u rc. cost' = finite_labels rc
        \<and> search_inv adj ?h start goal u [] open_set' ?closed came_from' rc rc"
      unfolding cost'_def by blast
    show ?thesis
      unfolding step
      by (rule "1.IH"[OF os current_def False cn' refl refl refl nb[symmetric] refl wf st ex
            target inv'])
  qed
qed

lemma astar_neighbors_open_subset:
  "astar_neighbors heuristic u closed_set ns (open_set, came_from, cost, cwh) =
     Some (open_set', vars')
   \<Longrightarrow> set open_set' \<subseteq> set open_set \<union> fst ` set ns"
proof (induction ns arbitrary: open_set came_from cost cwh)
  case Nil
  then show ?case by simp
next
  case (Cons n ns)
  then show ?case
    by (fastforce simp: Let_def set_set_insert split: if_splits option.splits)
qed

lemma dijkstra_neighbors_open_subset:
  "dijkstra_neighbors u closed_set ns (open_set, came_from, cost) = (open_set', vars')
   \<Longrightarrow> set open_set' \<subseteq> set open_set \<union> fst ` set ns"
proof (induction ns arbitrary: open_set came_from cost)
  case Nil
  then show ?case by simp
next
  case (Cons n ns)
  then show ?case
    by (fastforce simp: Let_def set_set_insert split: if_splits)
qed

lemma open_reachable_step:
  assumes wf: "adj_wf adj" and cn: "current < length adj"
    and q: "walk adj start q a" "last q = current"
    and op: "\<forall>v \<in> set open_set. v < length adj \<and> (\<exists>q a. walk adj start q a \<and> last q = v)"
    and sub: "set open_set' \<subseteq> set (set_erase current open_set) \<union> fst ` set (adj ! current)"
  shows "\<forall>v \<in> set open_set'. v < length adj \<and> (\<exists>q a. walk adj start q a \<and> last q = v)"
proof
  fix v assume "v \<in> set open_set'"
  with sub consider "v \<in> set open_set" | c where "(v, c) \<in> set (adj ! current)"
    by (auto simp: set_set_erase)
  then show "v < length adj \<and> (\<exists>q a. walk adj start q a \<and> last q = v)"
  proof cases
    case 1
    with op show ?thesis by blast
  next
    case 2
    with cn have e: "has_edge adj current v c" by (simp add: has_edge_def)
    with wf have "v < length adj" by (auto simp: adj_wf_def)
    moreover from walk_step[OF q(1), of v c] e q(2)
    have "walk adj start (q @ [v]) (a + c)" by simp
    ultimately show ?thesis by (metis last_snoc)
  qed
qed

lemma astar_loop_unreachable:
  assumes "adj_wf adj"
    and "\<forall>q a. walk adj start q a \<longrightarrow> last q \<noteq> goal"
    and "\<forall>v \<in> set open_set. v < length adj \<and> (\<exists>q a. walk adj start q a \<and> last q = v)"
  shows "astar_loop adj heuristic goal open_set closed_set came_from cost cwh solution =
         Some (False, solution)"
  using assms
proof (induction adj heuristic goal open_set closed_set came_from cost cwh solution
    rule: astar_loop.induct)
  case (1 adj heuristic goal open_set closed_set came_from cost cwh solution)
  note wf = "1.prems"(1) and unr = "1.prems"(2) and op = "1.prems"(3)
  show ?case
  proof (cases open_set)
    case Nil
    then show ?thesis by (simp add: astar_loop.simps)
  next
    case (Cons first rest)
    define current where "current = min_element_from cwh first rest"
    have mem: "current \<in> set open_set"
      using min_element_from_mem[of cwh first rest] by (simp add: Cons current_def)
    with op obtain q a where cn: "current < length adj"
      and q: "walk adj start q a" "last q = current" by blast
    with unr have ng: "current \<noteq> goal" by blast
    show ?thesis
    proof (cases "astar_neighbors heuristic current (insert current closed_set) (adj ! current)
             (set_erase current open_set, came_from, cost, cwh)")
      case None
      with Cons ng cn show ?thesis
        by (subst astar_loop.simps) (simp add: current_def[symmetric])
    next
      case (Some vars)
      obtain open_set' came_from' cost' cwh' where
        vars: "vars = (open_set', came_from', cost', cwh')" by (metis prod_cases4)
      note nb = Some[unfolded vars]
      have step: "astar_loop adj heuristic goal open_set closed_set came_from cost cwh solution =
          astar_loop adj heuristic goal open_set' (insert current closed_set) came_from' cost' cwh'
            solution"
        using Cons ng cn nb by (subst astar_loop.simps) (simp add: current_def[symmetric])
      note op' = open_reachable_step[OF wf cn q op astar_neighbors_open_subset[OF nb]]
      have cn': "\<not> \<not> current < length adj" using cn by simp
      show ?thesis
        unfolding step
        by (rule "1.IH"[OF Cons current_def ng cn' refl refl nb refl refl refl wf unr op'])
    qed
  qed
qed

lemma dijkstra_loop_unreachable:
  assumes "adj_wf adj"
    and "\<forall>q a. walk adj start q a \<longrightarrow> last q \<noteq> goal"
    and "\<forall>v \<in> set open_set. v < length adj \<and> (\<exists>q a. walk adj start q a \<and> last q = v)"
  shows "dijkstra_loop adj goal open_set closed_set came_from cost solution =
         Some (False, solution)"
  using assms
proof (induction adj goal open_set closed_set came_from cost solution
    rule: dijkstra_loop.induct)
  case (1 adj goal open_set closed_set came_from cost solution)
  note wf = "1.prems"(1) and unr = "1.prems"(2) and op = "1.prems"(3)
  show ?case
  proof (cases open_set)
    case Nil
    then show ?thesis by (simp add: dijkstra_loop.simps)
  next
    case (Cons first rest)
    define current where "current = min_element_from cost first rest"
    have mem: "current \<in> set open_set"
      using min_element_from_mem[of cost first rest] by (simp add: Cons current_def)
    with op obtain q a where cn: "current < length adj"
      and q: "walk adj start q a" "last q = current" by blast
    with unr have ng: "current \<noteq> goal" by blast
    obtain open_set' came_from' cost' where
      nb: "dijkstra_neighbors current (insert current closed_set) (adj ! current)
             (set_erase current open_set, came_from, cost) = (open_set', came_from', cost')"
      by (metis prod_cases3)
    have step: "dijkstra_loop adj goal open_set closed_set came_from cost solution =
        dijkstra_loop adj goal open_set' (insert current closed_set) came_from' cost' solution"
      using Cons ng cn nb by (subst dijkstra_loop.simps) (simp add: current_def[symmetric])
    note op' = open_reachable_step[OF wf cn q op dijkstra_neighbors_open_subset[OF nb]]
    have cn': "\<not> \<not> current < length adj" using cn by simp
    show ?thesis
      unfolding step
      by (rule "1.IH"[OF Cons current_def ng cn' refl refl refl nb[symmetric] refl wf unr
            op'])
  qed
qed

subsection \<open>The member functions\<close>

lemma exact_adj_graph:
  assumes rows: "rows_wf g" and wf: "adj_wf (graph g)"
    and sums: "sums_exact g start"
    and est: "estimates_exact g start heuristic"
    and tot: "\<forall>v < length (graph g). heuristic v = Some (h v)"
  shows "exact_adj (graph g) h start"
  unfolding exact_adj_def
proof (intro allI impI)
  fix p a v c
  assume w: "walk (graph g) start p a" and d: "distinct p"
    and e: "has_edge (graph g) (last p) v c"
  from walk_path_cost[OF rows w] walk_hd[OF w]
  have pc: "path_cost g p = Some a" "hd p = start" by simp_all
  from e has_edge_iff[OF rows] have ee: "edgeExists g (last p, v)"
    and c: "snd (getEdgeCost g (last p, v)) = c" by simp_all
  from wf e have "v < length (graph g)" by (auto simp: adj_wf_def)
  with tot have hv: "heuristic v = Some (h v)" by simp
  from sums pc d ee c have 1: "is_double (a + c)"
    unfolding sums_exact_def by blast
  from est pc d ee hv c have 2: "is_double (a + c + h v)"
    unfolding estimates_exact_def by blast
  from 1 2 show "is_double (a + c) \<and> is_double (a + c + h v)" ..
qed

lemma exact_adj_graph_zero:
  assumes rows: "rows_wf g" and sums: "sums_exact g start"
  shows "exact_adj (graph g) (\<lambda>v. 0) start"
  unfolding exact_adj_def
proof (intro allI impI)
  fix p a v c
  assume w: "walk (graph g) start p a" and d: "distinct p"
    and e: "has_edge (graph g) (last p) v c"
  from walk_path_cost[OF rows w] walk_hd[OF w]
  have pc: "path_cost g p = Some a" "hd p = start" by simp_all
  from e has_edge_iff[OF rows] have ee: "edgeExists g (last p, v)"
    and c: "snd (getEdgeCost g (last p, v)) = c" by simp_all
  from sums pc d ee c have "is_double (a + c)"
    unfolding sums_exact_def by blast
  then show "is_double (a + c) \<and> is_double (a + c + 0)" by simp
qed

lemma grid_adj_graph:
  assumes "costs_on_grid g e K"
  shows "grid_adj (graph g) e K"
  unfolding grid_adj_def
proof (intro allI impI)
  fix u v c assume "has_edge (graph g) u v c"
  then have "graph g ! u \<in> set (graph g)" "(v, c) \<in> set (graph g ! u)"
    by (simp_all add: has_edge_def)
  with assms show "\<exists>k :: nat. k \<le> K \<and> c = of_nat k * 2 powi e"
    by (force simp: costs_on_grid_def)
qed

text \<open>On a grid the sums are exact.\<close>

lemma grid_sums_exact:
  assumes rows: "rows_wf g" and nonneg: "costs_nonneg g" and targets: "targets_exist g"
    and st: "nodeExists g start"
    and grid: "costs_on_grid g e K" "- 1074 \<le> e" "e \<le> 971"
    and est: "estimates_on_grid g heuristic e Z"
    and bound: "length (graph g) * K + Z < 2 ^ 53"
  shows "sums_exact g start \<and> estimates_exact g start heuristic"
proof -
  from st have sn: "start < length (graph g)" by (simp add: nodeExists_def)
  have wf: "adj_wf (graph g)" by (rule adj_wf_graph[OF targets nonneg])
  have sums: "is_double (a + snd (getEdgeCost g (last q, v)))
      \<and> (heuristic v = Some hv \<longrightarrow> is_double (a + snd (getEdgeCost g (last q, v)) + hv))"
    if pc: "path_cost g q = Some a" and hd: "hd q = start" and d: "distinct q"
      and ee: "edgeExists g (last q, v)" for q a v hv
  proof -
    from path_cost_walk[OF rows pc] hd have w: "walk (graph g) start q a" by simp
    from ee has_edge_iff[OF rows]
    have e: "has_edge (graph g) (last q) v (snd (getEdgeCost g (last q, v)))" by simp
    with wf have vn: "v < length (graph g)" by (auto simp: adj_wf_def)
    have z0: "\<exists>z :: int. \<bar>z\<bar> \<le> int Z \<and> (0::real) = of_int z * 2 powi e"
      by (intro exI[of _ 0]) simp
    from exact_sums[OF wf sn grid_adj_graph[OF grid(1)] grid(2,3) z0 bound w d e]
    have 1: "is_double (a + snd (getEdgeCost g (last q, v)))" by simp
    have 2: "is_double (a + snd (getEdgeCost g (last q, v)) + hv)" if "heuristic v = Some hv"
    proof -
      from est vn that have "\<exists>z :: int. \<bar>z\<bar> \<le> int Z \<and> hv = of_int z * 2 powi e"
        by (simp add: estimates_on_grid_def)
      from exact_sums[OF wf sn grid_adj_graph[OF grid(1)] grid(2,3) this bound w d e]
      show ?thesis by simp
    qed
    from 1 2 show ?thesis by blast
  qed
  then show ?thesis unfolding sums_exact_def estimates_exact_def by blast
qed

lemma grid_costs_exact:
  assumes rows: "rows_wf g" and nonneg: "costs_nonneg g" and targets: "targets_exist g"
    and st: "nodeExists g start"
    and grid: "costs_on_grid g e K" "- 1074 \<le> e" "e \<le> 971"
    and bound: "length (graph g) * K < 2 ^ 53"
  shows "sums_exact g start"
proof -
  have est: "estimates_on_grid g Map.empty e 0" by (simp add: estimates_on_grid_def)
  from bound have "length (graph g) * K + 0 < 2 ^ 53" by simp
  from grid_sums_exact[OF rows nonneg targets st grid est this] show ?thesis by simp
qed

lemma initial_labels:
  "(\<lambda>i. if i < n then Finite kDoubleMax else Finite 0)(start := Finite x) =
   finite_labels ((\<lambda>i. if i < n then kDoubleMax else 0)(start := x))"
  by (auto simp: fun_eq_iff finite_labels_def)

lemma solveAStar_reachable:
  assumes rows: "rows_wf g" and nonneg: "costs_nonneg g" and targets: "targets_exist g"
    and st: "nodeExists g start" and gl: "nodeExists g goal"
    and hook: "calculateHeuristic g goal = (True, heuristic)"
    and total: "\<forall>v < length (graph g). heuristic v \<noteq> None"
    and cons: "consistent_heuristic g heuristic"
    and hgoal: "the (heuristic goal) \<le> 0"
    and exact: "sums_exact g start" "estimates_exact g start heuristic"
    and reach: "path_cost g q = Some a" "hd q = start" "last q = goal" "a < kDoubleMax"
  shows "\<exists>p c. solveAStar calculateHeuristic g start goal solution = Some (True, p)
               \<and> hd p = start \<and> last p = goal \<and> path_cost g p = Some c
               \<and> (\<forall>q' a'. path_cost g q' = Some a' \<longrightarrow> hd q' = start \<longrightarrow> last q' = goal \<longrightarrow>
                     c \<le> a')"
proof -
  let ?h = "\<lambda>v. the (heuristic v)"
  let ?n = "length (graph g)"
  from st have sn: "start < ?n" by (simp add: nodeExists_def)
  have wf: "adj_wf (graph g)" by (rule adj_wf_graph[OF targets nonneg])
  have con: "consistent (graph g) ?h"
    using cons has_edge_iff[OF rows] by (auto simp: consistent_def consistent_heuristic_def)
  have tot: "\<forall>v < ?n. heuristic v = Some (?h v)"
    using total by auto
  note ex = exact_adj_graph[OF rows wf exact tot]
  from path_cost_walk[OF rows reach(1)] reach(2) have w: "walk (graph g) start q a" by simp
  from total sn obtain hs where hs: "heuristic start = Some hs" by auto
  have run: "solveAStar calculateHeuristic g start goal solution =
      astar_loop (graph g) heuristic goal [start] {} Map.empty
        (finite_labels ((\<lambda>i. if i < ?n then kDoubleMax else 0)(start := 0)))
        (finite_labels ((\<lambda>i. if i < ?n then kDoubleMax else 0)(start := hs))) solution"
    using st gl hook hs by (simp add: solveAStar_def initial_labels)
  have inv: "\<exists>u rc rw.
      finite_labels ((\<lambda>i. if i < ?n then kDoubleMax else 0)(start := 0)) = finite_labels rc
      \<and> finite_labels ((\<lambda>i. if i < ?n then kDoubleMax else 0)(start := hs)) = finite_labels rw
      \<and> search_inv (graph g) ?h start goal u [] [start] {} Map.empty rc rw"
    using search_inv_init[OF sn, of ?h goal] hs by auto
  from astar_loop_optimal[OF wf sn con tot ex w reach(3,4) hgoal inv, of solution]
  obtain p c where p: "solveAStar calculateHeuristic g start goal solution = Some (True, p)"
    and wp: "walk (graph g) start p c" and lp: "last p = goal"
    and opt: "\<forall>q b. walk (graph g) start q b \<longrightarrow> last q = goal \<longrightarrow> c \<le> b"
    unfolding run by blast
  have "c \<le> a'" if "path_cost g q' = Some a'" "hd q' = start" "last q' = goal" for q' a'
    using path_cost_walk[OF rows that(1)] that(2,3) opt by auto
  with p walk_hd[OF wp] lp walk_path_cost[OF rows wp] show ?thesis by blast
qed

lemma solveDijkstra_reachable:
  assumes rows: "rows_wf g" and nonneg: "costs_nonneg g" and targets: "targets_exist g"
    and exact: "sums_exact g start"
    and st: "nodeExists g start" and gl: "nodeExists g goal"
    and reach: "path_cost g q = Some a" "hd q = start" "last q = goal" "a < kDoubleMax"
  shows "\<exists>p c. solveDijkstra g start goal solution = Some (True, p)
               \<and> hd p = start \<and> last p = goal \<and> path_cost g p = Some c
               \<and> (\<forall>q' a'. path_cost g q' = Some a' \<longrightarrow> hd q' = start \<longrightarrow> last q' = goal \<longrightarrow>
                     c \<le> a')"
proof -
  let ?n = "length (graph g)"
  from st have sn: "start < ?n" by (simp add: nodeExists_def)
  have wf: "adj_wf (graph g)" by (rule adj_wf_graph[OF targets nonneg])
  from path_cost_walk[OF rows reach(1)] reach(2) have w: "walk (graph g) start q a" by simp
  have run: "solveDijkstra g start goal solution =
      dijkstra_loop (graph g) goal [start] {} Map.empty
        (finite_labels ((\<lambda>i. if i < ?n then kDoubleMax else 0)(start := 0))) []"
    using st gl by (simp add: solveDijkstra_def initial_labels Let_def)
  have inv: "\<exists>u rc.
      finite_labels ((\<lambda>i. if i < ?n then kDoubleMax else 0)(start := 0)) = finite_labels rc
      \<and> search_inv (graph g) (\<lambda>v. 0) start goal u [] [start] {} Map.empty rc rc"
    using search_inv_init[OF sn, of "\<lambda>v. 0" goal] by auto
  from dijkstra_loop_optimal[OF wf sn exact_adj_graph_zero[OF rows exact] w reach(3,4) inv,
      of "[]"]
  obtain p c where p: "solveDijkstra g start goal solution = Some (True, p)"
    and wp: "walk (graph g) start p c" and lp: "last p = goal"
    and opt: "\<forall>q b. walk (graph g) start q b \<longrightarrow> last q = goal \<longrightarrow> c \<le> b"
    unfolding run by blast
  have "c \<le> a'" if "path_cost g q' = Some a'" "hd q' = start" "last q' = goal" for q' a'
    using path_cost_walk[OF rows that(1)] that(2,3) opt by auto
  with p walk_hd[OF wp] lp walk_path_cost[OF rows wp] show ?thesis by blast
qed

lemma search_unreachable:
  assumes rows: "rows_wf g" and st: "start < length (graph g)"
    and unr: "\<forall>q a. path_cost g q = Some a \<longrightarrow> hd q = start \<longrightarrow> last q \<noteq> goal"
  shows "\<forall>q a. walk (graph g) start q a \<longrightarrow> last q \<noteq> goal"
    and "\<forall>v \<in> set [start]. v < length (graph g)
      \<and> (\<exists>q a. walk (graph g) start q a \<and> last q = v)"
proof -
  show "\<forall>q a. walk (graph g) start q a \<longrightarrow> last q \<noteq> goal"
    using unr walk_path_cost[OF rows] walk_hd by blast
  show "\<forall>v \<in> set [start]. v < length (graph g)
      \<and> (\<exists>q a. walk (graph g) start q a \<and> last q = v)"
    using st walk_start[of "graph g" start] by force
qed

lemma solveAStar_unreachable:
  assumes rows: "rows_wf g" and nonneg: "costs_nonneg g" and targets: "targets_exist g"
    and st: "nodeExists g start"
    and unr: "\<forall>q a. path_cost g q = Some a \<longrightarrow> hd q = start \<longrightarrow> last q \<noteq> goal"
  shows "solveAStar calculateHeuristic g start goal solution = Some (False, solution)"
proof -
  from st have sn: "start < length (graph g)" by (simp add: nodeExists_def)
  note l = astar_loop_unreachable[OF adj_wf_graph[OF targets nonneg]
      search_unreachable[OF rows sn unr]]
  show ?thesis
    by (simp add: solveAStar_def l Let_def split: prod.splits bool.splits option.splits)
qed

lemma solveDijkstra_unreachable:
  assumes rows: "rows_wf g" and nonneg: "costs_nonneg g" and targets: "targets_exist g"
    and st: "nodeExists g start"
    and unr: "\<forall>q a. path_cost g q = Some a \<longrightarrow> hd q = start \<longrightarrow> last q \<noteq> goal"
  shows "solveDijkstra g start goal solution = Some (False, [])"
proof -
  from st have sn: "start < length (graph g)" by (simp add: nodeExists_def)
  note l = dijkstra_loop_unreachable[OF adj_wf_graph[OF targets nonneg]
      search_unreachable[OF rows sn unr]]
  show ?thesis
    by (simp add: solveDijkstra_def l Let_def)
qed

subsection \<open>The scenario of the specification\<close>

lemma grid_one: "1 \<le> K \<Longrightarrow> \<exists>k \<le> K. (1::real) = real k"
  by (intro exI[of _ 1]) simp

lemma grid_numeral: "numeral w \<le> K \<Longrightarrow> \<exists>k \<le> K. (numeral w :: real) = real k"
  by (intro exI[of _ "numeral w"]) simp

lemma grid_int_zero: "\<exists>z :: int. \<bar>z\<bar> \<le> int Z \<and> (0::real) = real_of_int z"
  by (intro exI[of _ 0]) simp

lemma grid_int_one: "1 \<le> Z \<Longrightarrow> \<exists>z :: int. \<bar>z\<bar> \<le> int Z \<and> (1::real) = real_of_int z"
  by (intro exI[of _ 1]) simp

lemma grid_int_numeral:
  "numeral w \<le> Z \<Longrightarrow> \<exists>z :: int. \<bar>z\<bar> \<le> int Z \<and> (numeral w :: real) = real_of_int z"
  by (intro exI[of _ "numeral w"]) simp

lemmas grid_simps = grid_one grid_numeral grid_int_zero grid_int_one grid_int_numeral

lemma scenario_wf:
  "rows_wf scenario_graph" "costs_nonneg scenario_graph" "targets_exist scenario_graph"
  by (simp_all add: scenario_graph_def rows_wf_def costs_nonneg_def targets_exist_def
      nodeExists_def)

lemma scenario_nodes: "nodeExists scenario_graph 0" "nodeExists scenario_graph 3"
  by (simp_all add: scenario_graph_def nodeExists_def)

lemma scenario_grid:
  "costs_on_grid scenario_graph 0 3" "- 1074 \<le> (0::int)" "(0::int) \<le> 971"
  by (simp_all add: scenario_graph_def costs_on_grid_def grid_simps)

lemma scenario_exact:
  "sums_exact scenario_graph 0"
  "estimates_exact scenario_graph 0 [0 \<mapsto> 3, 1 \<mapsto> 2, 2 \<mapsto> 1, 3 \<mapsto> 0]"
proof -
  let ?h = "[0 \<mapsto> 3, 1 \<mapsto> 2, 2 \<mapsto> 1, 3 \<mapsto> (0::real)]"
  have est: "estimates_on_grid scenario_graph ?h 0 3"
    by (auto simp: estimates_on_grid_def scenario_graph_def grid_simps split: if_splits)
  have n: "length (graph scenario_graph) * 3 + 3 < 2 ^ 53" by (simp add: scenario_graph_def)
  from grid_sums_exact[OF scenario_wf scenario_nodes(1) scenario_grid est n]
  show "sums_exact scenario_graph 0" "estimates_exact scenario_graph 0 ?h" by simp_all
qed

lemma scenario_dijkstra: "solveDijkstra scenario_graph 0 3 [] = Some (True, [0, 1, 2, 3])"
  by (simp add: solveDijkstra_def scenario_graph_def dijkstra_loop.simps eval_defs)

lemma scenario_cost: "path_cost scenario_graph [0, 1, 2, 3] = Some 3"
  by (simp add: scenario_graph_def eval_defs)

subsection \<open>Dijkstra\<close>




subsection \<open>A*\<close>

text \<open>The heuristic \<open>detour_heuristic\<close> is admissible on \<open>detour_graph\<close>: only node 1 has
  an estimate above zero, and no path from node 1 to node 3 is cheaper than 11.\<close>

lemma detour_heuristic_admissible:
  "admissible detour_graph 3 (snd (detour_heuristic detour_graph 3))"
proof -
  have wf: "rows_wf detour_graph" "costs_nonneg detour_graph" "targets_exist detour_graph"
    by (simp_all add: detour_graph_def rows_wf_def costs_nonneg_def targets_exist_def
      nodeExists_def)
  have grid: "costs_on_grid detour_graph 0 10" "- 1074 \<le> (0::int)" "(0::int) \<le> 971"
    "length (graph detour_graph) * 10 < 2 ^ 53"
    by (simp_all add: detour_graph_def costs_on_grid_def grid_simps)
  have n3: "nodeExists detour_graph 3" by (simp add: detour_graph_def nodeExists_def)
  have n1: "nodeExists detour_graph 1" by (simp add: detour_graph_def nodeExists_def)
  note exact = grid_costs_exact[OF wf n1 grid]
  have d1: "solveDijkstra detour_graph 1 3 [] = Some (True, [1, 2, 3])"
    by (simp add: solveDijkstra_def detour_graph_def dijkstra_loop.simps eval_defs)
  have c1: "path_cost detour_graph [1, 2, 3] = Some 11"
    by (simp add: detour_graph_def eval_defs)
  have le1: "11 \<le> a" if "path_cost detour_graph q = Some a" "hd q = 1" "last q = 3" for q a
  proof (cases "a < kDoubleMax")
    case True
    from solveDijkstra_reachable[OF wf exact n1 n3 that True, of "[]"] obtain p c where
      p: "solveDijkstra detour_graph 1 3 [] = Some (True, p)" "path_cost detour_graph p = Some c"
        "\<forall>q' a'. path_cost detour_graph q' = Some a' \<longrightarrow> hd q' = 1 \<longrightarrow> last q' = 3 \<longrightarrow> c \<le> a'"
      by blast
    from p(1) d1 have "p = [1, 2, 3]" by simp
    with p(2) c1 have "c = 11" by simp
    with p(3) that show ?thesis by blast
  next
    case False
    with kDoubleMax_large show ?thesis by linarith
  qed
  have h: "snd (detour_heuristic detour_graph 3) = [0 \<mapsto> 0, 1 \<mapsto> 11, 2 \<mapsto> 0, 3 \<mapsto> 0]"
    by (simp add: detour_heuristic_def)
  show ?thesis
    unfolding admissible_def h
  proof (intro allI impI)
    fix q a assume q: "path_cost detour_graph q = Some a" "nodeExists detour_graph (hd q)"
      "last q = 3"
    from path_cost_nonneg[OF wf(2) q(1)] have a0: "0 \<le> a" .
    from q(2) have "hd q < 4" by (simp add: detour_graph_def nodeExists_def)
    then consider "hd q = 0" | "hd q = 1" | "hd q = 2" | "hd q = 3" by linarith
    note nodes = this
    from nodes show "the ([0 \<mapsto> 0, 1 \<mapsto> 11, 2 \<mapsto> 0, 3 \<mapsto> 0] (hd q)) \<le> a"
    proof cases
      case 1
      with a0 show ?thesis by simp
    next
      case 2
      with le1[OF q(1) 2 q(3)] show ?thesis by simp
    next
      case 3
      with a0 show ?thesis by simp
    next
      case 4
      with a0 show ?thesis by simp
    qed
  qed
qed

text \<open>A consistent heuristic that is not positive at the goal is admissible.\<close>

lemma consistent_telescope:
  "consistent_heuristic g heuristic \<Longrightarrow> path_cost g q = Some a \<Longrightarrow>
   the (heuristic (hd q)) \<le> a + the (heuristic (last q))"
proof (induction g q arbitrary: a rule: path_cost.induct)
  case (1 g)
  then show ?case by simp
next
  case (2 g v)
  then show ?case by simp
next
  case (3 g u v rest)
  from "3.prems"(2) obtain b where e: "edgeExists g (u, v)"
    and b: "path_cost g (v # rest) = Some b" and a: "a = snd (getEdgeCost g (u, v)) + b"
    by (auto split: if_splits)
  from "3.prems"(1) e have "the (heuristic u) \<le> snd (getEdgeCost g (u, v)) + the (heuristic v)"
    by (simp add: consistent_heuristic_def)
  with "3.IH"[OF e "3.prems"(1) b] a show ?case by simp
qed

lemma consistent_admissible:
  assumes "consistent_heuristic g heuristic" and "the (heuristic goal) \<le> 0"
  shows "admissible g goal heuristic"
  unfolding admissible_def
proof (intro allI impI)
  fix q a assume "path_cost g q = Some a" and "last q = goal"
  with consistent_telescope[OF assms(1), of q a] assms(2)
  show "the (heuristic (hd q)) \<le> a" by simp
qed

text \<open>The heuristic \<open>absorbing_heuristic\<close> is consistent on \<open>absorbing_graph\<close>.\<close>

lemma absorbing_heuristic_consistent:
  "consistent_heuristic absorbing_graph (snd (absorbing_heuristic absorbing_graph 3))"
  unfolding consistent_heuristic_def
proof (intro allI impI)
  fix u v assume e: "edgeExists absorbing_graph (u, v)"
  then have "u < 4" by (simp add: edgeExists_def nodeExists_def absorbing_graph_def)
  then consider "u = 0" | "u = 1" | "u = 2" | "u = 3" by linarith
  then show "the (snd (absorbing_heuristic absorbing_graph 3) u)
      \<le> snd (getEdgeCost absorbing_graph (u, v))
        + the (snd (absorbing_heuristic absorbing_graph 3) v)"
  proof cases
    case 1
    with e have "v = 1 \<or> v = 2"
      by (auto simp: edgeExists_def map_count_def absorbing_graph_def split: if_splits)
    with 1 show ?thesis
      by (auto simp: absorbing_heuristic_def absorbing_graph_def eval_defs)
  next
    case 2
    with e have "v = 3"
      by (auto simp: edgeExists_def map_count_def absorbing_graph_def split: if_splits)
    with 2 show ?thesis
      by (auto simp: absorbing_heuristic_def absorbing_graph_def eval_defs)
  next
    case 3
    with e have "v = 1"
      by (auto simp: edgeExists_def map_count_def absorbing_graph_def split: if_splits)
    with 3 show ?thesis
      by (auto simp: absorbing_heuristic_def absorbing_graph_def eval_defs)
  next
    case 4
    with e show ?thesis
      by (auto simp: edgeExists_def map_count_def absorbing_graph_def split: if_splits)
  qed
qed


text \<open>The heuristic of the scenario is consistent, and \<open>solveAStar\<close> finds the cheapest
  path with it.\<close>

lemma scenario_heuristic_consistent:
  "consistent_heuristic scenario_graph (snd (scenario_heuristic scenario_graph 3))"
  unfolding consistent_heuristic_def
proof (intro allI impI)
  fix u v assume e: "edgeExists scenario_graph (u, v)"
  then have "u < 4" by (simp add: edgeExists_def nodeExists_def scenario_graph_def)
  then consider "u = 0" | "u = 1" | "u = 2" | "u = 3" by linarith
  then show "the (snd (scenario_heuristic scenario_graph 3) u)
      \<le> snd (getEdgeCost scenario_graph (u, v)) + the (snd (scenario_heuristic scenario_graph 3) v)"
  proof cases
    case 1
    with e have "v = 1 \<or> v = 2"
      by (auto simp: edgeExists_def map_count_def scenario_graph_def split: if_splits)
    with 1 show ?thesis
      by (auto simp: scenario_heuristic_def scenario_graph_def eval_defs)
  next
    case 2
    with e have "v = 2"
      by (auto simp: edgeExists_def map_count_def scenario_graph_def split: if_splits)
    with 2 show ?thesis
      by (auto simp: scenario_heuristic_def scenario_graph_def eval_defs)
  next
    case 3
    with e have "v = 3"
      by (auto simp: edgeExists_def map_count_def scenario_graph_def split: if_splits)
    with 3 show ?thesis
      by (auto simp: scenario_heuristic_def scenario_graph_def eval_defs)
  next
    case 4
    with e show ?thesis
      by (auto simp: edgeExists_def map_count_def scenario_graph_def split: if_splits)
  qed
qed

lemma scenario_astar: "solveAStar scenario_heuristic scenario_graph 0 3 [] = Some (True, [0, 1, 2, 3])"
  by (simp add: solveAStar_def scenario_graph_def scenario_heuristic_def astar_loop.simps eval_defs)



end
